theory Spec2Isabelle
  imports Main "HOL-Library.Word" "HOL-Library.Multiset"
begin

unbundle bit_operations_syntax

section \<open>The CC3XX random number generator driver (cc3xx\_rng.c)\<close>

text \<open>
  A shallow embedding of \<^verbatim>\<open>cc3xx_rng.c\<close>. The file-scope statics of the driver, the
  function-local static of \<^verbatim>\<open>xorshift_plus_128_lfsr\<close> and the memory-mapped RNG block
  form one explicit state record that every function takes and returns.

  \<^item> \<^verbatim>\<open>uint32_t\<close>, \<^verbatim>\<open>uint64_t\<close> and \<^verbatim>\<open>uint8_t\<close> are words: arithmetic wraps.
  \<^item> \<^verbatim>\<open>size_t\<close> lengths and offsets are natural numbers.
  \<^item> Buffers are byte images in memory; a 32 or 64 bit store writes its bytes in
    little-endian order (the Arm targets of the driver).
  \<^item> A register write is appended to a log. A register read (volatile) takes the
    next value of a list of values that the hardware will return to the successive
    reads of that register. A function that needs a read when the list is empty has no
    result: it returns \<open>None\<close>, as does a loop that never ends.
\<close>

subsection \<open>Types, build configuration and state\<close>

type_synonym u8 = "8 word"
type_synonym u32 = "32 word"
type_synonym u64 = "64 word"

text \<open>The error codes of \<^verbatim>\<open>cc3xx_error.h\<close> that this file returns.\<close>

datatype cc3xx_err_t =
    CC3XX_ERR_SUCCESS
  | CC3XX_ERR_RNG_INVALID_RNG
  | CC3XX_ERR_RNG_TOO_MANY_ATTEMPTS

text \<open>
  \<^verbatim>\<open>enum cc3xx_rng_quality_t\<close>. A C enum can hold an integer that is none of its
  enumerators; \<open>CC3XX_RNG_OTHER\<close> stands for every such value (the \<^verbatim>\<open>default:\<close> label
  of the switch).
\<close>

datatype cc3xx_rng_quality_t =
    CC3XX_RNG_CRYPTOGRAPHICALLY_SECURE
  | CC3XX_RNG_FAST
  | CC3XX_RNG_OTHER

text \<open>
  The macros and the register layout come from headers that are outside this file:
  they are parameters of the model.
  \<^item> \<open>CC3XX_CONFIG_RNG_MAX_ATTEMPTS\<close>, \<open>CC3XX_CONFIG_RNG_SUBSAMPLING_RATE\<close> and
    \<open>CC3XX_CONFIG_RNG_RING_OSCILLATOR_ID\<close>: the configuration macros, converted to
    \<^verbatim>\<open>uint32_t\<close> as the comparisons and stores of the code convert them;
  \<^item> \<open>CC3XX_CONFIG_DPA_MITIGATIONS_ENABLE\<close>: whether that macro is defined;
  \<^item> \<open>EHR_DATA_WORDS\<close>: \<^verbatim>\<open>sizeof(P_CC3XX->rng.ehr_data) / sizeof(uint32_t)\<close>;
  \<^item> \<open>FATAL_ERR_HALTS\<close>: whether the \<^verbatim>\<open>FATAL_ERR\<close> macro of \<^verbatim>\<open>fatal_error.h\<close> stops
    the processor after it has recorded the error, or gives control back to the
    statement that follows it;
  \<^item> \<open>NDEBUG\<close>: whether that macro is defined where \<^verbatim>\<open>assert.h\<close> is included. When it
    is, the three \<^verbatim>\<open>assert\<close> statements of the file expand to nothing and the code
    after them runs whatever the asserted condition.
\<close>

record cc3xx_config =
  CC3XX_CONFIG_RNG_MAX_ATTEMPTS :: u32
  CC3XX_CONFIG_RNG_SUBSAMPLING_RATE :: u32
  CC3XX_CONFIG_RNG_RING_OSCILLATOR_ID :: u32
  CC3XX_CONFIG_DPA_MITIGATIONS_ENABLE :: bool
  EHR_DATA_WORDS :: nat
  FATAL_ERR_HALTS :: bool
  NDEBUG :: bool

text \<open>The registers of \<^verbatim>\<open>P_CC3XX->rng\<close> that the driver writes.\<close>

datatype rng_reg =
    RNG_CLK_ENABLE
  | RNG_SW_RESET
  | SAMPLE_CNT1
  | RND_SOURCE_ENABLE
  | RNG_ICR
  | RNG_IMR
  | TRNG_CONFIG
  | TRNG_DEBUG_CONTROL
  | RST_BITS_COUNTER

text \<open>
  The state. \<open>lfsr_state\<close> is the static \<^verbatim>\<open>state[2]\<close> of \<^verbatim>\<open>xorshift_plus_128_lfsr\<close>.
  \<open>reg_writes\<close> is the log of register writes, oldest first. \<open>rng_isr_reads\<close>,
  \<open>sample_cnt1_reads\<close> and \<open>ehr_data_reads\<close> are the values that the next reads of
  \<^verbatim>\<open>rng_isr\<close>, \<^verbatim>\<open>sample_cnt1\<close> and \<^verbatim>\<open>ehr_data[..]\<close> return. \<open>fatal_errors\<close> is the log of
  the \<^verbatim>\<open>FATAL_ERR\<close> invocations.
\<close>

record rng_state =
  lfsr_seed_done :: bool
  lfsr_state :: "u64 \<times> u64"
  lfsr_buf :: "u8 list"
  lfsr_buf_used_idx :: nat
  entropy_buf :: "u8 list"
  entropy_buf_used_idx :: nat
  reg_writes :: "(rng_reg \<times> u32) list"
  rng_isr_reads :: "u32 list"
  sample_cnt1_reads :: "u32 list"
  ehr_data_reads :: "u32 list"
  fatal_errors :: "cc3xx_err_t list"

text \<open>
  How a call ends: it returns a value, an \<^verbatim>\<open>assert\<close> fails, or \<^verbatim>\<open>FATAL_ERR\<close> stops
  the processor. Each carries the state reached. A call that never ends has no
  outcome (\<open>None\<close>).
\<close>

datatype 'a outcome =
    Returns 'a rng_state
  | AssertFailed rng_state
  | FatalHalt rng_state

text \<open>The initial values of the statics; the buffers start fully used.\<close>

definition lfsr_buf_size :: nat where
  "lfsr_buf_size = 8"

definition entropy_buf_size :: "cc3xx_config \<Rightarrow> nat" where
  "entropy_buf_size cfg = 4 * EHR_DATA_WORDS cfg"

definition initial_state ::
  "cc3xx_config \<Rightarrow> u32 list \<Rightarrow> u32 list \<Rightarrow> u32 list \<Rightarrow> rng_state" where
  "initial_state cfg isr cnt ehr =
     \<lparr> lfsr_seed_done = False,
       lfsr_state = (0, 0),
       lfsr_buf = replicate lfsr_buf_size 0,
       lfsr_buf_used_idx = lfsr_buf_size,
       entropy_buf = replicate (entropy_buf_size cfg) 0,
       entropy_buf_used_idx = entropy_buf_size cfg,
       reg_writes = [],
       rng_isr_reads = isr,
       sample_cnt1_reads = cnt,
       ehr_data_reads = ehr,
       fatal_errors = [] \<rparr>"

subsection \<open>Bytes and words in memory\<close>

definition le_bytes32 :: "u32 \<Rightarrow> u8 list" where
  "le_bytes32 w = map (\<lambda>i. ucast (drop_bit (8 * i) w)) [0..<4]"

definition le_bytes64 :: "u64 \<Rightarrow> u8 list" where
  "le_bytes64 w = map (\<lambda>i. ucast (drop_bit (8 * i) w)) [0..<8]"

fun le_word :: "u8 list \<Rightarrow> 'a::len word" where
  "le_word [] = 0"
| "le_word (b # bs) = ucast b OR push_bit 8 (le_word bs)"

text \<open>
  Storing \<open>bs\<close> at offset \<open>pos\<close> of the buffer \<open>dst\<close>. Every caller in this file
  passes a buffer that holds the bytes it asks for.
\<close>

definition write_bytes :: "u8 list \<Rightarrow> nat \<Rightarrow> u8 list \<Rightarrow> u8 list" where
  "write_bytes dst pos bs = take pos dst @ bs @ drop (pos + length bs) dst"

definition reg_write :: "rng_reg \<Rightarrow> u32 \<Rightarrow> rng_state \<Rightarrow> rng_state" where
  "reg_write r v s = s\<lparr>reg_writes := reg_writes s @ [(r, v)]\<rparr>"

text \<open>\<^verbatim>\<open>FATAL_ERR(x)\<close>: record the error, then halt or go on, as configured.\<close>

definition FATAL_ERR :: "cc3xx_config \<Rightarrow> cc3xx_err_t \<Rightarrow> rng_state \<Rightarrow> unit outcome" where
  "FATAL_ERR cfg err s =
     (let s' = s\<lparr>fatal_errors := fatal_errors s @ [err]\<rparr>
      in if FATAL_ERR_HALTS cfg then FatalHalt s' else Returns () s')"

text \<open>
  \<^verbatim>\<open>round_up\<close> on \<^verbatim>\<open>uint32_t\<close>. Its caller passes a \<^verbatim>\<open>size_t\<close> offset and stores the
  result back into a \<^verbatim>\<open>size_t\<close>.
\<close>

definition round_up :: "u32 \<Rightarrow> u32 \<Rightarrow> u32" where
  "round_up num boundary =
     (num + boundary - 1) - ((num + boundary - 1) mod boundary)"

subsection \<open>The hardware entropy adapter\<close>

text \<open>
  The \<^verbatim>\<open>do ... while\<close> loop of \<^verbatim>\<open>trng_init\<close>: write the clock enable and the
  subsampling ratio, read the ratio back, and go round again until it reads as
  written. The arguments are the values that the reads of \<^verbatim>\<open>sample_cnt1\<close> return and
  the log of writes.
\<close>

fun trng_init_wait ::
  "cc3xx_config \<Rightarrow> u32 list \<Rightarrow> (rng_reg \<times> u32) list \<Rightarrow>
   (u32 list \<times> (rng_reg \<times> u32) list) option" where
  "trng_init_wait cfg [] ws = None"
| "trng_init_wait cfg (r # rs) ws =
     (let ws' = ws @ [(RNG_CLK_ENABLE, 1),
                      (SAMPLE_CNT1, CC3XX_CONFIG_RNG_SUBSAMPLING_RATE cfg)]
      in if r \<noteq> CC3XX_CONFIG_RNG_SUBSAMPLING_RATE cfg
         then trng_init_wait cfg rs ws'
         else Some (rs, ws'))"

definition trng_init :: "cc3xx_config \<Rightarrow> rng_state \<Rightarrow> cc3xx_err_t outcome option" where
  "trng_init cfg s =
     (let s1 = reg_write RNG_SW_RESET 1 (reg_write RNG_CLK_ENABLE 1 s)
      in case trng_init_wait cfg (sample_cnt1_reads s1) (reg_writes s1) of
           None \<Rightarrow> None
         | Some (rs, ws) \<Rightarrow>
             Some (Returns CC3XX_ERR_SUCCESS
               (reg_write RND_SOURCE_ENABLE 1
               (reg_write TRNG_DEBUG_CONTROL 0
               (reg_write TRNG_CONFIG
                  (CC3XX_CONFIG_RNG_RING_OSCILLATOR_ID cfg OR push_bit 2 1)
               (reg_write RNG_IMR 0x3E
               (reg_write RNG_ICR 0x3F
               (reg_write RND_SOURCE_ENABLE 0
                  (s1\<lparr>sample_cnt1_reads := rs, reg_writes := ws\<rparr>)))))))))"

definition trng_finish :: "rng_state \<Rightarrow> cc3xx_err_t \<times> rng_state" where
  "trng_finish s =
     (CC3XX_ERR_SUCCESS, reg_write RNG_CLK_ENABLE 0 (reg_write RND_SOURCE_ENABLE 0 s))"

text \<open>
  The polling loop of \<^verbatim>\<open>trng_get_random\<close>. One round reads \<^verbatim>\<open>rng_isr\<close> twice: for the
  health-test bits (\<open>0xE\<close>) in the body, and for the valid bit (\<open>0x1\<close>) in the loop
  condition, whose left operand is evaluated in every round. The result is the
  attempt counter, the reads that are left and the log of writes.
\<close>

fun trng_poll ::
  "cc3xx_config \<Rightarrow> u32 \<Rightarrow> u32 list \<Rightarrow> (rng_reg \<times> u32) list \<Rightarrow>
   (u32 \<times> u32 list \<times> (rng_reg \<times> u32) list) option" where
  "trng_poll cfg attempt_count (r1 # r2 # rs) ws =
     (let (attempt_count', ws') =
            (if r1 AND 0xE \<noteq> 0
             then (attempt_count + 1, ws @ [(RST_BITS_COUNTER, 1), (RNG_ICR, 0x3F)])
             else (attempt_count, ws))
      in if r2 AND 0x1 = 0 \<and> attempt_count' < CC3XX_CONFIG_RNG_MAX_ATTEMPTS cfg
         then trng_poll cfg attempt_count' rs ws'
         else Some (attempt_count', rs, ws'))"
| "trng_poll cfg attempt_count rs ws = None"

text \<open>
  \<^verbatim>\<open>trng_get_random(buf, word_count)\<close>. \<open>buf\<close> is the memory the pointer refers to;
  the result holds its contents after the call.
\<close>

definition trng_get_random ::
  "cc3xx_config \<Rightarrow> u8 list \<Rightarrow> nat \<Rightarrow> rng_state \<Rightarrow> (cc3xx_err_t \<times> u8 list) outcome option" where
  "trng_get_random cfg buf word_count s =
     (if \<not> NDEBUG cfg \<and> word_count \<noteq> EHR_DATA_WORDS cfg then Some (AssertFailed s)
      else case trng_poll cfg 0 (rng_isr_reads s) (reg_writes s) of
        None \<Rightarrow> None
      | Some (attempt_count, rs, ws) \<Rightarrow>
          (let s1 = s\<lparr>rng_isr_reads := rs, reg_writes := ws\<rparr>
           in if attempt_count = CC3XX_CONFIG_RNG_MAX_ATTEMPTS cfg
              then (case FATAL_ERR cfg CC3XX_ERR_RNG_TOO_MANY_ATTEMPTS (snd (trng_finish s1)) of
                      Returns u s2 \<Rightarrow> Some (Returns (CC3XX_ERR_RNG_TOO_MANY_ATTEMPTS, buf) s2)
                    | AssertFailed s2 \<Rightarrow> Some (AssertFailed s2)
                    | FatalHalt s2 \<Rightarrow> Some (FatalHalt s2))
              else (let s2 = reg_write RNG_ICR 0xFFFFFFFF (reg_write RST_BITS_COUNTER 1 s1)
                    in if length (ehr_data_reads s2) < EHR_DATA_WORDS cfg then None
                       else Some (Returns
                         (CC3XX_ERR_SUCCESS,
                          concat (map le_bytes32 (take (EHR_DATA_WORDS cfg) (ehr_data_reads s2)))
                            @ drop (4 * EHR_DATA_WORDS cfg) buf)
                         (s2\<lparr>ehr_data_reads :=
                               drop (EHR_DATA_WORDS cfg) (ehr_data_reads s2)\<rparr>)))))"

subsection \<open>The entropy buffer manager\<close>

text \<open>
  The switch of \<^verbatim>\<open>cc3xx_lowlevel_rng_get_random\<close> points \<^verbatim>\<open>random_buf\<close> and \<^verbatim>\<open>used_idx\<close>
  at one of the two static pools. \<open>pool\<close> names the pool the pointers refer to.
\<close>

datatype pool = ENTROPY_POOL | LFSR_POOL

fun random_buf :: "pool \<Rightarrow> rng_state \<Rightarrow> u8 list" where
  "random_buf ENTROPY_POOL s = entropy_buf s"
| "random_buf LFSR_POOL s = lfsr_buf s"

fun used_idx :: "pool \<Rightarrow> rng_state \<Rightarrow> nat" where
  "used_idx ENTROPY_POOL s = entropy_buf_used_idx s"
| "used_idx LFSR_POOL s = lfsr_buf_used_idx s"

fun set_random_buf :: "pool \<Rightarrow> u8 list \<Rightarrow> rng_state \<Rightarrow> rng_state" where
  "set_random_buf ENTROPY_POOL b s = s\<lparr>entropy_buf := b\<rparr>"
| "set_random_buf LFSR_POOL b s = s\<lparr>lfsr_buf := b\<rparr>"

fun set_used_idx :: "pool \<Rightarrow> nat \<Rightarrow> rng_state \<Rightarrow> rng_state" where
  "set_used_idx ENTROPY_POOL n s = s\<lparr>entropy_buf_used_idx := n\<rparr>"
| "set_used_idx LFSR_POOL n s = s\<lparr>lfsr_buf_used_idx := n\<rparr>"

text \<open>
  One copy out of the pool (the statements of the loop body after the refill): the
  caller's buffer \<open>dst\<close>, the offset \<open>pos\<close> that \<^verbatim>\<open>buf\<close> has advanced to, the bytes
  still wanted, and the state. The aligned branch copies \<open>copy_size / 4\<close> words
  starting at word \<open>used_idx / 4\<close> of the pool; the other branch is the \<^verbatim>\<open>memcpy\<close>.
\<close>

definition rng_copy ::
  "pool \<Rightarrow> nat \<Rightarrow> bool \<Rightarrow> u8 list \<Rightarrow> nat \<Rightarrow> nat \<Rightarrow> rng_state \<Rightarrow>
   u8 list \<times> nat \<times> nat \<times> rng_state" where
  "rng_copy p max_buf_size request_is_word_aligned dst pos len s =
     (let copy_size = (if max_buf_size - used_idx p s < len
                       then max_buf_size - used_idx p s else len);
          src = (if request_is_word_aligned
                 then take (4 * (copy_size div 4)) (drop (4 * (used_idx p s div 4)) (random_buf p s))
                 else take copy_size (drop (used_idx p s) (random_buf p s)))
      in (write_bytes dst pos src, pos + copy_size, len - copy_size,
          set_used_idx p (used_idx p s + copy_size) s))"

text \<open>
  The \<^verbatim>\<open>while (length > 0)\<close> loop. \<open>random_fn\<close> is the function pointer. The result
  pairs the value of \<^verbatim>\<open>err\<close> at the label \<^verbatim>\<open>out\<close> with the caller's buffer.
\<close>

partial_function (option) rng_fill_loop ::
  "pool \<Rightarrow> nat \<Rightarrow> (u8 list \<Rightarrow> nat \<Rightarrow> rng_state \<Rightarrow> (cc3xx_err_t \<times> u8 list) outcome option) \<Rightarrow>
   bool \<Rightarrow> u8 list \<Rightarrow> nat \<Rightarrow> nat \<Rightarrow> rng_state \<Rightarrow> (cc3xx_err_t \<times> u8 list) outcome option" where
  "rng_fill_loop p max_buf_size random_fn aligned dst pos len s =
     (if len = 0 then Some (Returns (CC3XX_ERR_SUCCESS, dst) s)
      else if used_idx p s = max_buf_size
      then (case random_fn (random_buf p s) (max_buf_size div 4) s of
              None \<Rightarrow> None
            | Some (AssertFailed s1) \<Rightarrow> Some (AssertFailed s1)
            | Some (FatalHalt s1) \<Rightarrow> Some (FatalHalt s1)
            | Some (Returns (err, b) s1) \<Rightarrow>
                if err \<noteq> CC3XX_ERR_SUCCESS
                then Some (Returns (err, dst) (set_random_buf p b s1))
                else (case rng_copy p max_buf_size aligned dst pos len
                             (set_used_idx p 0 (set_random_buf p b s1)) of
                        (dst', pos', len', s2) \<Rightarrow>
                          rng_fill_loop p max_buf_size random_fn aligned dst' pos' len' s2))
      else (case rng_copy p max_buf_size aligned dst pos len s of
              (dst', pos', len', s2) \<Rightarrow>
                rng_fill_loop p max_buf_size random_fn aligned dst' pos' len' s2))"

declare rng_fill_loop.simps [code]

text \<open>
  The body of \<^verbatim>\<open>cc3xx_lowlevel_rng_get_random\<close> after the switch has chosen the pool,
  its size and the backing generator. \<open>buf\<close> is the address held by the pointer
  (only its alignment is looked at), \<open>dst\<close> the memory it points to.
\<close>

definition rng_get_random_from ::
  "cc3xx_config \<Rightarrow> pool \<Rightarrow> nat \<Rightarrow>
   (u8 list \<Rightarrow> nat \<Rightarrow> rng_state \<Rightarrow> (cc3xx_err_t \<times> u8 list) outcome option) \<Rightarrow>
   u32 \<Rightarrow> u8 list \<Rightarrow> nat \<Rightarrow> cc3xx_rng_quality_t \<Rightarrow> rng_state \<Rightarrow>
   (cc3xx_err_t \<times> u8 list) outcome option" where
  "rng_get_random_from cfg p max_buf_size random_fn buf dst len quality s =
     (let request_is_word_aligned = (buf AND 0x3 = 0 \<and> len mod 4 = 0);
          s1 = (if request_is_word_aligned
                then set_used_idx p (unat (round_up (of_nat (used_idx p s)) 4)) s
                else s);
          rng_required = (max_buf_size - used_idx p s1 < len)
      in case (if rng_required \<and> quality = CC3XX_RNG_CRYPTOGRAPHICALLY_SECURE
               then trng_init cfg s1
               else Some (Returns CC3XX_ERR_SUCCESS s1)) of
           None \<Rightarrow> None
         | Some (AssertFailed s2) \<Rightarrow> Some (AssertFailed s2)
         | Some (FatalHalt s2) \<Rightarrow> Some (FatalHalt s2)
         | Some (Returns err s2) \<Rightarrow>
             if err \<noteq> CC3XX_ERR_SUCCESS then Some (Returns (err, dst) s2)
             else (case rng_fill_loop p max_buf_size random_fn request_is_word_aligned
                          dst 0 len s2 of
                     None \<Rightarrow> None
                   | Some (AssertFailed s3) \<Rightarrow> Some (AssertFailed s3)
                   | Some (FatalHalt s3) \<Rightarrow> Some (FatalHalt s3)
                   | Some (Returns (err', dst') s3) \<Rightarrow>
                       if rng_required \<and> quality = CC3XX_RNG_CRYPTOGRAPHICALLY_SECURE
                       then (case trng_finish s3 of
                               (err'', s4) \<Rightarrow> Some (Returns (err'', dst') s4))
                       else Some (Returns (err', dst') s3)))"

subsection \<open>The deterministic fast generator\<close>

text \<open>
  \<^verbatim>\<open>xorshift_plus_128_lfsr\<close>. The seeding call is
  \<^verbatim>\<open>cc3xx_lowlevel_rng_get_random((uint8_t *)&state, sizeof(state), CC3XX_RNG_CRYPTOGRAPHICALLY_SECURE)\<close>,
  written here as the body that the switch of that function selects for this quality
  (\<open>rng_get_random_from\<close> on the entropy pool). Its return value is dropped, as in the
  code. The
  address of \<^verbatim>\<open>state\<close> is 8-byte aligned, so its two low bits are zero.
\<close>

definition xorshift_step :: "u64 \<times> u64 \<Rightarrow> u64 \<times> (u64 \<times> u64)" where
  "xorshift_step st =
     (let temp0 = fst st;
          temp1 = snd st;
          temp0 = temp0 XOR push_bit 23 temp0;
          temp0 = temp0 XOR drop_bit 18 temp0;
          temp0 = temp0 XOR (temp1 XOR drop_bit 5 temp1)
      in (temp0 + temp1, (snd st, temp0)))"

definition xorshift_plus_128_lfsr :: "cc3xx_config \<Rightarrow> rng_state \<Rightarrow> u64 outcome option" where
  "xorshift_plus_128_lfsr cfg s =
     (case (if \<not> lfsr_seed_done s
            then (case rng_get_random_from cfg ENTROPY_POOL (entropy_buf_size cfg)
                         (trng_get_random cfg) 0
                         (le_bytes64 (fst (lfsr_state s)) @ le_bytes64 (snd (lfsr_state s)))
                         16 CC3XX_RNG_CRYPTOGRAPHICALLY_SECURE s of
                    None \<Rightarrow> None
                  | Some (AssertFailed s1) \<Rightarrow> Some (AssertFailed s1)
                  | Some (FatalHalt s1) \<Rightarrow> Some (FatalHalt s1)
                  | Some (Returns (err, bytes) s1) \<Rightarrow>
                      Some (Returns ()
                        (s1\<lparr>lfsr_state := (le_word (take 8 bytes), le_word (take 8 (drop 8 bytes))),
                            lfsr_seed_done := True\<rparr>)))
            else Some (Returns () s)) of
        None \<Rightarrow> None
      | Some (AssertFailed s1) \<Rightarrow> Some (AssertFailed s1)
      | Some (FatalHalt s1) \<Rightarrow> Some (FatalHalt s1)
      | Some (Returns u s1) \<Rightarrow>
          (case xorshift_step (lfsr_state s1) of
             (r, st') \<Rightarrow> Some (Returns r (s1\<lparr>lfsr_state := st'\<rparr>))))"

definition lfsr_get_random ::
  "cc3xx_config \<Rightarrow> u8 list \<Rightarrow> nat \<Rightarrow> rng_state \<Rightarrow> (cc3xx_err_t \<times> u8 list) outcome option" where
  "lfsr_get_random cfg buf word_count s =
     (if \<not> NDEBUG cfg \<and> word_count \<noteq> 2 then Some (AssertFailed s)
      else case xorshift_plus_128_lfsr cfg s of
        None \<Rightarrow> None
      | Some (AssertFailed s1) \<Rightarrow> Some (AssertFailed s1)
      | Some (FatalHalt s1) \<Rightarrow> Some (FatalHalt s1)
      | Some (Returns r s1) \<Rightarrow>
          Some (Returns (CC3XX_ERR_SUCCESS, le_bytes64 r @ drop 8 buf) s1))"

subsection \<open>The public functions\<close>

definition cc3xx_lowlevel_rng_get_random ::
  "cc3xx_config \<Rightarrow> u32 \<Rightarrow> u8 list \<Rightarrow> nat \<Rightarrow> cc3xx_rng_quality_t \<Rightarrow> rng_state \<Rightarrow>
   (cc3xx_err_t \<times> u8 list) outcome option" where
  "cc3xx_lowlevel_rng_get_random cfg buf dst len quality s =
     (case quality of
        CC3XX_RNG_CRYPTOGRAPHICALLY_SECURE \<Rightarrow>
          rng_get_random_from cfg ENTROPY_POOL (entropy_buf_size cfg) (trng_get_random cfg)
            buf dst len quality s
      | CC3XX_RNG_FAST \<Rightarrow>
          rng_get_random_from cfg LFSR_POOL lfsr_buf_size (lfsr_get_random cfg)
            buf dst len quality s
      | CC3XX_RNG_OTHER \<Rightarrow> Some (Returns (CC3XX_ERR_RNG_INVALID_RNG, dst) s))"

text \<open>
  \<^verbatim>\<open>__builtin_clz\<close> on a 32 bit word: the number of zero bits above the highest one
  bit. The driver calls it with a non-zero argument only.
\<close>

fun clz_from :: "nat \<Rightarrow> u32 \<Rightarrow> nat" where
  "clz_from 0 w = 0"
| "clz_from (Suc n) w = (if bit w n then 0 else Suc (clz_from n w))"

definition builtin_clz :: "u32 \<Rightarrow> nat" where
  "builtin_clz w = clz_from 32 w"

text \<open>
  The count of leading zero bits of a 32 bit word as the specification words the shift
  of the mask (section 4.4): the number of zero bits met from bit 31 downwards before
  the first one bit. It is compared with \<open>builtin_clz\<close> in claim C5.
\<close>

definition leading_zero_bits :: "u32 \<Rightarrow> nat" where
  "leading_zero_bits w = length (takeWhile (\<lambda>i. \<not> bit w i) (rev [0..<32]))"

text \<open>The mask that \<^verbatim>\<open>cc3xx_lowlevel_rng_get_random_uint\<close> computes before its loop.\<close>

definition rng_uint_mask :: "u32 \<Rightarrow> u32" where
  "rng_uint_mask bound =
     (if bound AND (bound - 1) = 0 then bound - 1
      else drop_bit (builtin_clz bound) (- 1))"

text \<open>
  The \<^verbatim>\<open>do ... while\<close> loop of \<^verbatim>\<open>cc3xx_lowlevel_rng_get_random_uint\<close>. \<open>uint_mem\<close> is the
  word that the out-parameter \<^verbatim>\<open>uint\<close> points to; the result holds it after the call.
  \<open>mask32\<close> is the local \<^verbatim>\<open>mask\<close>. \<open>value_w\<close> is what the local \<^verbatim>\<open>value\<close> holds when a
  round starts. It is a 4-byte aligned word, and the draw is asked to store its four
  bytes over it: the bytes of \<open>value_w\<close> are the buffer handed to
  \<^verbatim>\<open>cc3xx_lowlevel_rng_get_random\<close>, and what that call leaves in them is what the loop
  reads. \<^verbatim>\<open>value &= mask\<close> stores the masked word back, so the next round starts from it.
\<close>

function rng_uint_loop ::
  "cc3xx_config \<Rightarrow> u32 \<Rightarrow> u32 \<Rightarrow> cc3xx_rng_quality_t \<Rightarrow> u32 \<Rightarrow> u32 \<Rightarrow> u32 \<Rightarrow> rng_state \<Rightarrow>
   (cc3xx_err_t \<times> u32) outcome option" where
  "rng_uint_loop cfg bound mask32 quality uint_mem value_w attempts s =
     (case cc3xx_lowlevel_rng_get_random cfg 0 (le_bytes32 value_w) 4 quality s of
        None \<Rightarrow> None
      | Some (AssertFailed s1) \<Rightarrow> Some (AssertFailed s1)
      | Some (FatalHalt s1) \<Rightarrow> Some (FatalHalt s1)
      | Some (Returns (err, bytes) s1) \<Rightarrow>
          if err \<noteq> CC3XX_ERR_SUCCESS then Some (Returns (err, uint_mem) s1)
          else if attempts + 1 \<ge> CC3XX_CONFIG_RNG_MAX_ATTEMPTS cfg
          then (case FATAL_ERR cfg CC3XX_ERR_RNG_TOO_MANY_ATTEMPTS s1 of
                  Returns u s2 \<Rightarrow> Some (Returns (CC3XX_ERR_RNG_TOO_MANY_ATTEMPTS, uint_mem) s2)
                | AssertFailed s2 \<Rightarrow> Some (AssertFailed s2)
                | FatalHalt s2 \<Rightarrow> Some (FatalHalt s2))
          else if le_word (take 4 bytes) AND mask32 \<ge> bound
          then rng_uint_loop cfg bound mask32 quality uint_mem
              (le_word (take 4 bytes) AND mask32) (attempts + 1) s1
          else Some (Returns (CC3XX_ERR_SUCCESS, le_word (take 4 bytes) AND mask32) s1))"
  by pat_completeness auto
termination
proof -
  have pred: "unat (x - 1) < unat x" if "x \<noteq> 0" for x :: u32
    using that by (simp add: unat_minus_one unat_gt_0)
  have step: "unat (m - 1 - (a + 1)) < unat (m - 1 - a)" if "\<not> m \<le> a + 1" for m a :: u32
  proof -
    from that have "m - 1 - a \<noteq> 0" by auto
    from pred [OF this] show ?thesis by (simp add: algebra_simps)
  qed
  show ?thesis
    by (relation "measure (\<lambda>(cfg, bound, mask32, quality, uint_mem, value_w, attempts, s).
                   unat (CC3XX_CONFIG_RNG_MAX_ATTEMPTS cfg - 1 - attempts))")
       (simp, simp only: in_measure prod.case, erule step)
qed

declare rng_uint_loop.simps [simp del]

text \<open>
  An observer of the same loop: the number of draws (calls of
  \<^verbatim>\<open>cc3xx_lowlevel_rng_get_random\<close>) that the loop makes when it is entered with the
  counter at \<open>attempts\<close>. It follows the loop branch by branch.
\<close>

function rng_uint_draws ::
  "cc3xx_config \<Rightarrow> u32 \<Rightarrow> u32 \<Rightarrow> cc3xx_rng_quality_t \<Rightarrow> u32 \<Rightarrow> u32 \<Rightarrow> rng_state \<Rightarrow> nat" where
  "rng_uint_draws cfg bound mask32 quality value_w attempts s =
     (case cc3xx_lowlevel_rng_get_random cfg 0 (le_bytes32 value_w) 4 quality s of
        None \<Rightarrow> 1
      | Some (AssertFailed s1) \<Rightarrow> 1
      | Some (FatalHalt s1) \<Rightarrow> 1
      | Some (Returns (err, bytes) s1) \<Rightarrow>
          if err \<noteq> CC3XX_ERR_SUCCESS then 1
          else if attempts + 1 \<ge> CC3XX_CONFIG_RNG_MAX_ATTEMPTS cfg then 1
          else if le_word (take 4 bytes) AND mask32 \<ge> bound
          then 1 + rng_uint_draws cfg bound mask32 quality
              (le_word (take 4 bytes) AND mask32) (attempts + 1) s1
          else 1)"
  by pat_completeness auto
termination
proof -
  have pred: "unat (x - 1) < unat x" if "x \<noteq> 0" for x :: u32
    using that by (simp add: unat_minus_one unat_gt_0)
  have step: "unat (m - 1 - (a + 1)) < unat (m - 1 - a)" if "\<not> m \<le> a + 1" for m a :: u32
  proof -
    from that have "m - 1 - a \<noteq> 0" by auto
    from pred [OF this] show ?thesis by (simp add: algebra_simps)
  qed
  show ?thesis
    by (relation "measure (\<lambda>(cfg, bound, mask32, quality, value_w, attempts, s).
                   unat (CC3XX_CONFIG_RNG_MAX_ATTEMPTS cfg - 1 - attempts))")
       (simp, simp only: in_measure prod.case, erule step)
qed

declare rng_uint_draws.simps [simp del]

text \<open>
  \<^verbatim>\<open>cc3xx_lowlevel_rng_get_random_uint(bound, uint, quality)\<close>. The local \<^verbatim>\<open>value\<close> has no
  initialiser: what it holds on entry is indeterminate in C, and it is the argument
  \<open>value_w\<close> here, so that every statement about the function holds for whatever the local
  happens to hold. The \<^verbatim>\<open>assert\<close> is the first statement; it is absent under \<open>NDEBUG\<close>.
\<close>

definition cc3xx_lowlevel_rng_get_random_uint ::
  "cc3xx_config \<Rightarrow> u32 \<Rightarrow> u32 \<Rightarrow> cc3xx_rng_quality_t \<Rightarrow> u32 \<Rightarrow> rng_state \<Rightarrow>
   (cc3xx_err_t \<times> u32) outcome option" where
  "cc3xx_lowlevel_rng_get_random_uint cfg bound uint_mem quality value_w s =
     (if \<not> NDEBUG cfg \<and> bound = 0 then Some (AssertFailed s)
      else rng_uint_loop cfg bound (rng_uint_mask bound) quality uint_mem value_w 0 s)"

subsection \<open>The permutation generator\<close>

text \<open>
  \<^verbatim>\<open>fisher_yates_shuffle\<close>: the \<^verbatim>\<open>for\<close> loop, entered with \<open>len \<noteq> 0\<close>. \<open>swap_idx\<close> is
  the local that \<^verbatim>\<open>cc3xx_lowlevel_rng_get_random_uint\<close> stores into; the loop reads
  it only after such a store. The bound \<open>len - idx\<close> is passed as a \<^verbatim>\<open>uint32_t\<close>.
  The two element stores are list updates at \<open>idx\<close> and at \<open>swap_idx\<close>. \<open>value_at idx\<close> is
  what the uninitialised local \<^verbatim>\<open>value\<close> of the sampler holds on entry to the call made
  for the index \<open>idx\<close>.
\<close>

function fisher_yates_loop ::
  "cc3xx_config \<Rightarrow> u8 list \<Rightarrow> nat \<Rightarrow> cc3xx_rng_quality_t \<Rightarrow> (nat \<Rightarrow> u32) \<Rightarrow> u32 \<Rightarrow> nat \<Rightarrow>
   rng_state \<Rightarrow> (u8 list) outcome option" where
  "fisher_yates_loop cfg permutation_buf len quality value_at swap_idx idx s =
     (if idx \<le> len - 1
      then (case cc3xx_lowlevel_rng_get_random_uint cfg (of_nat (len - idx)) swap_idx quality
                     (value_at idx) s of
              None \<Rightarrow> None
            | Some (AssertFailed s1) \<Rightarrow> Some (AssertFailed s1)
            | Some (FatalHalt s1) \<Rightarrow> Some (FatalHalt s1)
            | Some (Returns (err, swap_idx1) s1) \<Rightarrow>
                if err \<noteq> CC3XX_ERR_SUCCESS
                then fisher_yates_loop cfg permutation_buf len quality value_at swap_idx1 (idx + 1) s1
                else (let swap_idx2 = swap_idx1 + of_nat idx;
                          temp_elem = permutation_buf ! idx;
                          permutation_buf1 = permutation_buf[idx := permutation_buf ! unat swap_idx2];
                          permutation_buf2 = permutation_buf1[unat swap_idx2 := temp_elem]
                      in fisher_yates_loop cfg permutation_buf2 len quality value_at swap_idx2 (idx + 1) s1))
      else Some (Returns permutation_buf s))"
  by pat_completeness auto
termination
  by (relation "measure (\<lambda>(cfg, permutation_buf, len, quality, value_at, swap_idx, idx, s).
                   Suc (len - 1) - idx)")
     auto

declare fisher_yates_loop.simps [simp del]

definition fisher_yates_shuffle ::
  "cc3xx_config \<Rightarrow> u8 list \<Rightarrow> nat \<Rightarrow> cc3xx_rng_quality_t \<Rightarrow> (nat \<Rightarrow> u32) \<Rightarrow> rng_state \<Rightarrow>
   (u8 list) outcome option" where
  "fisher_yates_shuffle cfg permutation_buf len quality value_at s =
     (if len = 0 then Some (Returns permutation_buf s)
      else fisher_yates_loop cfg permutation_buf len quality value_at 0 0 s)"

text \<open>
  The initialising loop of \<^verbatim>\<open>cc3xx_lowlevel_rng_get_random_permutation\<close>: the store
  \<^verbatim>\<open>permutation_buf[idx] = idx\<close> converts the \<^verbatim>\<open>uint32_t\<close> index to \<^verbatim>\<open>uint8_t\<close>.
\<close>

function permutation_init :: "u8 list \<Rightarrow> nat \<Rightarrow> nat \<Rightarrow> u8 list" where
  "permutation_init permutation_buf len idx =
     (if idx < len
      then permutation_init (permutation_buf[idx := of_nat idx]) len (idx + 1)
      else permutation_buf)"
  by pat_completeness auto
termination
  by (relation "measure (\<lambda>(permutation_buf, len, idx). len - idx)") auto

declare permutation_init.simps [simp del]

definition cc3xx_lowlevel_rng_get_random_permutation ::
  "cc3xx_config \<Rightarrow> u8 list \<Rightarrow> nat \<Rightarrow> cc3xx_rng_quality_t \<Rightarrow> (nat \<Rightarrow> u32) \<Rightarrow> rng_state \<Rightarrow>
   (u8 list) outcome option" where
  "cc3xx_lowlevel_rng_get_random_permutation cfg permutation_buf len quality value_at s =
     (let permutation_buf1 = permutation_init permutation_buf len 0
      in if CC3XX_CONFIG_DPA_MITIGATIONS_ENABLE cfg
         then fisher_yates_shuffle cfg permutation_buf1 len quality value_at s
         else Some (Returns permutation_buf1 s))"

subsection \<open>A concrete configuration for the examples\<close>

text \<open>
  Two entropy words per read of the hardware (an 8 byte entropy pool) and the
  assertions compiled in; the attempt limit, the countermeasure switch and the
  behaviour of \<^verbatim>\<open>FATAL_ERR\<close> are arguments.
\<close>

definition example_config :: "u32 \<Rightarrow> bool \<Rightarrow> bool \<Rightarrow> cc3xx_config" where
  "example_config max_attempts dpa halts =
     \<lparr> CC3XX_CONFIG_RNG_MAX_ATTEMPTS = max_attempts,
       CC3XX_CONFIG_RNG_SUBSAMPLING_RATE = 0x1337,
       CC3XX_CONFIG_RNG_RING_OSCILLATOR_ID = 0,
       CC3XX_CONFIG_DPA_MITIGATIONS_ENABLE = dpa,
       EHR_DATA_WORDS = 2,
       FATAL_ERR_HALTS = halts,
       NDEBUG = False \<rparr>"

text \<open>
  A state with no hardware responses scripted, whose entropy pool holds \<open>bytes\<close> with
  the first \<open>used\<close> of them consumed.
\<close>

definition example_state :: "cc3xx_config \<Rightarrow> u8 list \<Rightarrow> nat \<Rightarrow> rng_state" where
  "example_state cfg bytes used =
     (initial_state cfg [] [] [])\<lparr>entropy_buf := bytes, entropy_buf_used_idx := used\<rparr>"

text \<open>
  A state with no hardware responses scripted and the fast generator seeded with the
  all-zero state (the seed that sixteen zero bytes of entropy give); its pool holds
  zeros, the first \<open>used\<close> of them consumed. From the all-zero state every output of
  the xorshift step is zero.
\<close>

definition example_fast_state :: "cc3xx_config \<Rightarrow> nat \<Rightarrow> rng_state" where
  "example_fast_state cfg used =
     (initial_state cfg [] [] [])\<lparr>lfsr_seed_done := True, lfsr_buf_used_idx := used\<rparr>"

subsection \<open>Scripts of hardware polls, for the statements about the adapter\<close>

text \<open>
  One poll of \<^verbatim>\<open>trng_get_random\<close> is a pair: the value \<^verbatim>\<open>rng_isr\<close> returns to the read
  in the loop body and the value it returns to the read in the loop condition.
  \<open>poll_reads\<close> lays a list of polls out as the successive reads of the register,
  \<open>failed_polls\<close> counts the polls whose first read shows a failed health test, and
  \<open>poll_writes\<close> lists the register writes that the loop body makes for them.
\<close>

definition poll_reads :: "(u32 \<times> u32) list \<Rightarrow> u32 list" where
  "poll_reads polls = concat (map (\<lambda>(r1, r2). [r1, r2]) polls)"

definition failed_polls :: "(u32 \<times> u32) list \<Rightarrow> nat" where
  "failed_polls polls = length (filter (\<lambda>(r1, r2). r1 AND 0xE \<noteq> 0) polls)"

definition poll_writes :: "(u32 \<times> u32) list \<Rightarrow> (rng_reg \<times> u32) list" where
  "poll_writes polls =
     concat (map (\<lambda>(r1, r2). if r1 AND 0xE \<noteq> 0
                              then [(RST_BITS_COUNTER, 1), (RNG_ICR, 0x3F)] else []) polls)"


subsection \<open>Observers for the statements about the fast generator\<close>

text \<open>The state in which a call ended.\<close>

fun outcome_state :: "'a outcome \<Rightarrow> rng_state" where
  "outcome_state (Returns r s) = s"
| "outcome_state (AssertFailed s) = s"
| "outcome_state (FatalHalt s) = s"

text \<open>
  Everything a draw from the cryptographically secure pool can touch: that pool, its
  offset, and the hardware (the writes made and the reads still to come).
\<close>

definition cs_side ::
  "rng_state \<Rightarrow> u8 list \<times> nat \<times> (rng_reg \<times> u32) list \<times> u32 list \<times> u32 list \<times> u32 list" where
  "cs_side s = (entropy_buf s, entropy_buf_used_idx s, reg_writes s,
                rng_isr_reads s, sample_cnt1_reads s, ehr_data_reads s)"

text \<open>
  The three public functions called with \<open>CC3XX_RNG_FAST\<close>, the state each call ends
  in, and the list of states that a sequence of such calls goes through.
\<close>

datatype fast_op =
    GetRandom u32 "u8 list" nat
  | GetRandomUint u32 u32 u32
  | GetRandomPermutation "u8 list" nat "nat \<Rightarrow> u32"

fun fast_op_run :: "cc3xx_config \<Rightarrow> fast_op \<Rightarrow> rng_state \<Rightarrow> rng_state option" where
  "fast_op_run cfg (GetRandom buf dst len) s =
     map_option outcome_state (cc3xx_lowlevel_rng_get_random cfg buf dst len CC3XX_RNG_FAST s)"
| "fast_op_run cfg (GetRandomUint bound uint_mem value_w) s =
     map_option outcome_state
       (cc3xx_lowlevel_rng_get_random_uint cfg bound uint_mem CC3XX_RNG_FAST value_w s)"
| "fast_op_run cfg (GetRandomPermutation permutation_buf len value_at) s =
     map_option outcome_state
       (cc3xx_lowlevel_rng_get_random_permutation cfg permutation_buf len CC3XX_RNG_FAST
          value_at s)"

fun fast_ops_states :: "cc3xx_config \<Rightarrow> fast_op list \<Rightarrow> rng_state \<Rightarrow> rng_state list option" where
  "fast_ops_states cfg [] s = Some [s]"
| "fast_ops_states cfg (op # ops) s =
     (case fast_op_run cfg op s of
        None \<Rightarrow> None
      | Some s' \<Rightarrow> map_option (\<lambda>ss. s # ss) (fast_ops_states cfg ops s'))"


subsection \<open>The shuffle as the specification words it\<close>

text \<open>
  Section 4.5 of the specification, for the countermeasure enabled: start from the
  identity sequence \<open>[0, 1, \<dots>, length - 1]\<close>; for each index \<open>i\<close> from 0 to
  \<open>length - 1\<close> draw \<open>swap_index_offset\<close> below \<open>length - i\<close>, let
  \<open>swap_index = i + swap_index_offset\<close> and exchange the elements at \<open>i\<close> and
  \<open>swap_index\<close>; when the draw for an index fails, leave that position as it is and go
  on with the next index. The sequence is a list of natural numbers, indices are
  natural numbers, and the steps are folded over the list of indices; the draw is the
  bounded integer sampler of the source. The exchange and the step are written for
  lists of any element type, so that the same step can also be folded over the byte
  buffer of the source. \<open>spec_random_permutation\<close> is compared with the function of the
  source in claim C8.
\<close>

definition spec_exchange :: "nat \<Rightarrow> nat \<Rightarrow> 'a list \<Rightarrow> 'a list" where
  "spec_exchange i swap_index xs = (xs[i := xs ! swap_index])[swap_index := xs ! i]"

fun spec_shuffle_step ::
  "cc3xx_config \<Rightarrow> nat \<Rightarrow> cc3xx_rng_quality_t \<Rightarrow> (nat \<Rightarrow> u32) \<Rightarrow>
   ('a list) outcome option \<Rightarrow> nat \<Rightarrow> ('a list) outcome option" where
  "spec_shuffle_step cfg len quality value_at (Some (Returns perm s)) i =
     (case cc3xx_lowlevel_rng_get_random_uint cfg (of_nat (len - i)) 0 quality (value_at i) s of
        None \<Rightarrow> None
      | Some (AssertFailed s') \<Rightarrow> Some (AssertFailed s')
      | Some (FatalHalt s') \<Rightarrow> Some (FatalHalt s')
      | Some (Returns (err, swap_index_offset) s') \<Rightarrow>
          if err = CC3XX_ERR_SUCCESS
          then Some (Returns (spec_exchange i (i + unat swap_index_offset) perm) s')
          else Some (Returns perm s'))"
| "spec_shuffle_step cfg len quality value_at stopped i = stopped"

definition spec_random_permutation ::
  "cc3xx_config \<Rightarrow> nat \<Rightarrow> cc3xx_rng_quality_t \<Rightarrow> (nat \<Rightarrow> u32) \<Rightarrow> rng_state \<Rightarrow>
   (nat list) outcome option" where
  "spec_random_permutation cfg len quality value_at s =
     foldl (spec_shuffle_step cfg len quality value_at) (Some (Returns [0..<len] s)) [0..<len]"

text \<open>
  The numbers that the first \<open>len\<close> bytes of the permutation buffer hold, for the
  comparison of the buffer of the source with the sequence of the specification.
\<close>

definition buffer_numbers :: "nat \<Rightarrow> (u8 list) outcome option \<Rightarrow> (nat list) outcome option" where
  "buffer_numbers len = map_option (map_outcome (\<lambda>b. map unat (take len b)))"


subsection \<open>The backing generators as byte streams, for consecutive byte-fill calls\<close>

text \<open>
  The pool a quality draws from: the entropy pool for cryptographically secure requests, the
  pool of the fast generator otherwise (an unknown quality is rejected before any pool is
  touched).
\<close>

fun quality_pool :: "cc3xx_rng_quality_t \<Rightarrow> pool" where
  "quality_pool CC3XX_RNG_CRYPTOGRAPHICALLY_SECURE = ENTROPY_POOL"
| "quality_pool CC3XX_RNG_FAST = LFSR_POOL"
| "quality_pool CC3XX_RNG_OTHER = LFSR_POOL"

text \<open>
  What a refill of pool \<open>p\<close> can depend on besides the pool itself: the state of the fast
  generator, the scripted hardware reads, the error log and the other pool. The log of register
  writes and the reads of the sample counter are left out: a refill does not read them.
\<close>

fun gen_view ::
  "pool \<Rightarrow> rng_state \<Rightarrow>
   bool \<times> (u64 \<times> u64) \<times> u32 list \<times> u32 list \<times> cc3xx_err_t list \<times> u8 list \<times> nat" where
  "gen_view ENTROPY_POOL s =
     (lfsr_seed_done s, lfsr_state s, rng_isr_reads s, ehr_data_reads s, fatal_errors s,
      lfsr_buf s, lfsr_buf_used_idx s)"
| "gen_view LFSR_POOL s =
     (lfsr_seed_done s, lfsr_state s, rng_isr_reads s, ehr_data_reads s, fatal_errors s,
      entropy_buf s, entropy_buf_used_idx s)"

text \<open>
  \<open>gen_yields p m fn g blks\<close>: started with the generator in the condition \<open>g\<close>, the refill
  function \<open>fn\<close> of pool \<open>p\<close> (of \<open>m\<close> bytes) succeeds \<open>length blks\<close> times in a row and
  delivers the blocks \<open>blks\<close> in this order, whatever the pool holds when it is called. This is
  what makes the backing generator deterministic.
\<close>

inductive gen_yields ::
  "pool \<Rightarrow> nat \<Rightarrow> (u8 list \<Rightarrow> nat \<Rightarrow> rng_state \<Rightarrow> (cc3xx_err_t \<times> u8 list) outcome option) \<Rightarrow>
   bool \<times> (u64 \<times> u64) \<times> u32 list \<times> u32 list \<times> cc3xx_err_t list \<times> u8 list \<times> nat \<Rightarrow>
   u8 list list \<Rightarrow> bool"
  for p :: pool and m :: nat
    and fn :: "u8 list \<Rightarrow> nat \<Rightarrow> rng_state \<Rightarrow> (cc3xx_err_t \<times> u8 list) outcome option" where
  gen_yields_Nil: "gen_yields p m fn g []"
| gen_yields_Cons:
    "length b = m \<Longrightarrow>
     (\<forall>t. gen_view p t = g \<and> length (random_buf p t) = m \<longrightarrow>
        (\<exists>t'. fn (random_buf p t) (m div 4) t = Some (Returns (CC3XX_ERR_SUCCESS, b) t')
              \<and> gen_view p t' = g' \<and> sample_cnt1_reads t' = sample_cnt1_reads t)) \<Longrightarrow>
     gen_yields p m fn g' bs \<Longrightarrow>
     gen_yields p m fn g (b # bs)"

text \<open>
  The bytes the pool still owes: the unconsumed rest of the buffer, followed by the blocks of
  the next refills.
\<close>

definition pool_stream :: "pool \<Rightarrow> rng_state \<Rightarrow> u8 list list \<Rightarrow> u8 list" where
  "pool_stream p s blks = drop (used_idx p s) (random_buf p s) @ concat blks"

text \<open>
  The number of bytes the alignment adjustment drops: when the output address and the length
  are both word-aligned, the consumed offset \<open>used\<close> is rounded up to a multiple of four.
\<close>

definition align_discard :: "u32 \<Rightarrow> nat \<Rightarrow> nat \<Rightarrow> nat" where
  "align_discard buf len used =
     (if buf AND 0x3 = 0 \<and> len mod 4 = 0
      then unat (round_up (of_nat used) 4) - used else 0)"

text \<open>
  The blocks the two generators deliver. A refill of the entropy pool reads \<open>n\<close> words of the
  entropy-holding registers and stores them in little-endian order; a refill of the pool of the
  fast generator stores one 64-bit output of the xorshift step.
\<close>

fun trng_blocks :: "nat \<Rightarrow> nat \<Rightarrow> u32 list \<Rightarrow> u8 list list" where
  "trng_blocks n 0 ws = []"
| "trng_blocks n (Suc k) ws = concat (map le_bytes32 (take n ws)) # trng_blocks n k (drop n ws)"

fun xorshift_blocks :: "nat \<Rightarrow> u64 \<times> u64 \<Rightarrow> u8 list list" where
  "xorshift_blocks 0 st = []"
| "xorshift_blocks (Suc k) st =
     le_bytes64 (fst (xorshift_step st)) # xorshift_blocks k (snd (xorshift_step st))"

text \<open>
  The hardware is ready for \<open>k\<close> refills of the entropy pool when the attempt limit is not
  zero, every one of the next \<open>2 * k\<close> reads of the interrupt status register (two for each
  refill: one tests the error bits, one the valid bit) shows valid entropy and no error, and the script holds
  the \<open>k * EHR_DATA_WORDS\<close> words to read.
\<close>

definition trng_ready :: "cc3xx_config \<Rightarrow> nat \<Rightarrow> rng_state \<Rightarrow> bool" where
  "trng_ready cfg k s \<longleftrightarrow>
     CC3XX_CONFIG_RNG_MAX_ATTEMPTS cfg \<noteq> 0
     \<and> 2 * k \<le> length (rng_isr_reads s)
     \<and> (\<forall>r \<in> set (take (2 * k) (rng_isr_reads s)). r AND 0xE = 0 \<and> r AND 0x1 \<noteq> 0)
     \<and> k * EHR_DATA_WORDS cfg \<le> length (ehr_data_reads s)"

text \<open>
  The conditions under which the backing generator of a quality delivers its next \<open>k\<close> blocks.
  For the entropy pool: the buffer has its size, the hardware is ready, and the sample counter
  reads back the programmed rate often enough for the two initialisations of the adapter that
  two calls may need. For the fast generator: the buffer has its size and the generator is
  seeded. The stream of a quality is then the stream of its pool.
\<close>

definition backing_ready ::
  "cc3xx_config \<Rightarrow> cc3xx_rng_quality_t \<Rightarrow> nat \<Rightarrow> rng_state \<Rightarrow> bool" where
  "backing_ready cfg quality k s =
     (case quality of
        CC3XX_RNG_CRYPTOGRAPHICALLY_SECURE \<Rightarrow>
          0 < EHR_DATA_WORDS cfg \<and> entropy_buf_size cfg + 3 < 2 ^ 32
          \<and> length (entropy_buf s) = entropy_buf_size cfg
          \<and> entropy_buf_used_idx s \<le> entropy_buf_size cfg
          \<and> trng_ready cfg k s
          \<and> 2 \<le> count_list (sample_cnt1_reads s) (CC3XX_CONFIG_RNG_SUBSAMPLING_RATE cfg)
      | CC3XX_RNG_FAST \<Rightarrow>
          length (lfsr_buf s) = lfsr_buf_size \<and> lfsr_buf_used_idx s \<le> lfsr_buf_size
          \<and> lfsr_seed_done s
      | CC3XX_RNG_OTHER \<Rightarrow> False)"

definition backing_stream ::
  "cc3xx_config \<Rightarrow> cc3xx_rng_quality_t \<Rightarrow> nat \<Rightarrow> rng_state \<Rightarrow> u8 list" where
  "backing_stream cfg quality k s =
     (case quality of
        CC3XX_RNG_CRYPTOGRAPHICALLY_SECURE \<Rightarrow>
          pool_stream ENTROPY_POOL s (trng_blocks (EHR_DATA_WORDS cfg) k (ehr_data_reads s))
      | CC3XX_RNG_FAST \<Rightarrow>
          pool_stream LFSR_POOL s (xorshift_blocks k (lfsr_state s))
      | CC3XX_RNG_OTHER \<Rightarrow> [])"


section \<open>Properties\<close>

subsection \<open>The permutation buffer without the countermeasure\<close>

lemma permutation_init_eq:
  "idx \<le> len \<Longrightarrow> len \<le> length buf \<Longrightarrow>
   permutation_init buf len idx = take idx buf @ map of_nat [idx..<len] @ drop len buf"
proof (induction buf len idx rule: permutation_init.induct)
  case (1 buf len idx)
  show ?case
  proof (cases "idx < len")
    case True
    have "permutation_init buf len idx = permutation_init (buf[idx := of_nat idx]) len (idx + 1)"
      using True by (simp add: permutation_init.simps [of buf])
    also have "\<dots> = take (idx + 1) (buf[idx := of_nat idx]) @ map of_nat [idx + 1..<len]
                       @ drop len (buf[idx := of_nat idx])"
      using "1.IH" [OF True] True "1.prems" by simp
    also have "take (idx + 1) (buf[idx := of_nat idx]) = take idx buf @ [of_nat idx]"
      using True "1.prems" by (simp add: take_Suc_conv_app_nth)
    also have "drop len (buf[idx := of_nat idx]) = drop len buf"
      using True by simp
    finally show ?thesis using True by (simp add: upt_conv_Cons)
  next
    case False
    with "1.prems" have "idx = len" by simp
    then show ?thesis by (simp add: permutation_init.simps [of buf])
  qed
qed

lemma map_unat_identity:
  "len \<le> 256 \<Longrightarrow> map unat (map of_nat [0..<len] :: u8 list) = [0..<len]"
  by (rule nth_equalityI) (simp_all add: unat_of_nat)

text \<open>
  Claim C9, as amended. With the countermeasure not compiled in,
  \<^verbatim>\<open>cc3xx_lowlevel_rng_get_random_permutation\<close> returns with the state untouched and
  with the first \<open>len\<close> bytes of the buffer holding \<open>0, 1, \<dots>, len - 1\<close>, for every
  \<open>len\<close> up to 256 (the elements are bytes); the bytes of the buffer beyond \<open>len\<close> keep
  their values.
\<close>

theorem C9_identity_permutation:
  assumes "\<not> CC3XX_CONFIG_DPA_MITIGATIONS_ENABLE cfg" and "len \<le> length permutation_buf"
    and "len \<le> 256"
  shows "\<exists>b. cc3xx_lowlevel_rng_get_random_permutation cfg permutation_buf len quality value_at s
           = Some (Returns b s)
         \<and> map unat (take len b) = [0..<len] \<and> drop len b = drop len permutation_buf"
  using assms map_unat_identity [of len]
  by (simp add: cc3xx_lowlevel_rng_get_random_permutation_def permutation_init_eq)

text \<open>The example of the specification: length 5 gives \<open>[0, 1, 2, 3, 4]\<close>.\<close>

theorem C9_identity_permutation_witness:
  "cc3xx_lowlevel_rng_get_random_permutation (example_config 16 False False)
      [7, 7, 7, 7, 7] 5 CC3XX_RNG_FAST (\<lambda>i. 0)
      (initial_state (example_config 16 False False) [] [] [])
    = Some (Returns [0, 1, 2, 3, 4] (initial_state (example_config 16 False False) [] [] []))"
proof -
  obtain b where b: "cc3xx_lowlevel_rng_get_random_permutation (example_config 16 False False)
      [7, 7, 7, 7, 7] 5 CC3XX_RNG_FAST (\<lambda>i. 0)
      (initial_state (example_config 16 False False) [] [] [])
    = Some (Returns b (initial_state (example_config 16 False False) [] [] []))"
    and m: "map unat (take 5 b) = [0..<5]" and d: "drop 5 b = drop 5 [7, 7, 7, 7, 7]"
    using C9_identity_permutation [of "example_config 16 False False" 5 "[7, 7, 7, 7, 7]"
        CC3XX_RNG_FAST "\<lambda>i. 0" "initial_state (example_config 16 False False) [] [] []"]
    by (auto simp: example_config_def)
  have "cc3xx_lowlevel_rng_get_random_permutation (example_config 16 False False)
      [7, 7, 7, 7, 7] 5 CC3XX_RNG_FAST (\<lambda>i. 0)
      (initial_state (example_config 16 False False) [] [] [])
    = Some (Returns [0, 1, 2, 3, 4] (initial_state (example_config 16 False False) [] [] []))"
    by code_simp
  then show ?thesis using b by simp
qed

text \<open>
  The claim as stated, for every length, fails at length 257: the store into a byte
  keeps the index modulo 256, so the element at index 256 is 0.
\<close>

theorem C9_counterexample:
  "\<not> (\<exists>b s'. cc3xx_lowlevel_rng_get_random_permutation (example_config 16 False False)
      (replicate 257 0) 257 CC3XX_RNG_FAST (\<lambda>i. 0)
      (initial_state (example_config 16 False False) [] [] [])
         = Some (Returns b s')
       \<and> map unat b = [0..<257])"
proof
  assume "\<exists>b s'. cc3xx_lowlevel_rng_get_random_permutation (example_config 16 False False)
      (replicate 257 0) 257 CC3XX_RNG_FAST (\<lambda>i. 0)
      (initial_state (example_config 16 False False) [] [] [])
         = Some (Returns b s')
       \<and> map unat b = [0..<257]"
  then have "map unat (map of_nat [0..<257] :: u8 list) = [0..<257]"
    by (auto simp: cc3xx_lowlevel_rng_get_random_permutation_def permutation_init_eq
        example_config_def)
  then have "map unat (map of_nat [0..<257] :: u8 list) ! 256 = [0..<257] ! 256"
    by simp
  then show False by (simp del: upt_Suc)
qed

lemma pow2_and_pred: "k < 32 \<Longrightarrow> (2 ^ k :: u32) AND (2 ^ k - 1) = 0"
proof -
  have "(2 ^ k :: u32) AND (2 ^ k - 1) = take_bit k (2 ^ k :: u32)"
    by (simp add: mask_eq_exp_minus_1 [symmetric] take_bit_eq_mask)
  also have "\<dots> = 0"
    by (simp add: take_bit_eq_0_iff)
  finally show ?thesis .
qed

lemma and_pow2_pred_less: "k < 32 \<Longrightarrow> (v :: u32) AND (2 ^ k - 1) < 2 ^ k"
  using and_mask_less' [of k v] by (simp add: mask_eq_exp_minus_1)

lemma rng_uint_mask_pow2: "k < 32 \<Longrightarrow> rng_uint_mask (2 ^ k) = 2 ^ k - 1"
  by (simp add: rng_uint_mask_def pow2_and_pred)

lemma rng_uint_mask_10: "rng_uint_mask 10 = 0xF"
  by code_simp

lemma clz_from_takeWhile:
  "clz_from n w = length (takeWhile (\<lambda>i. \<not> bit w i) (rev [0..<n]))"
  by (induction n) simp_all

lemma builtin_clz_leading_zero_bits: "builtin_clz w = leading_zero_bits w"
  by (simp add: builtin_clz_def leading_zero_bits_def clz_from_takeWhile)

lemma clz_from_bits:
  "clz_from n w \<le> n \<and> (\<forall>i. n - clz_from n w \<le> i \<and> i < n \<longrightarrow> \<not> bit w i)
   \<and> (clz_from n w < n \<longrightarrow> bit w (n - clz_from n w - 1))"
proof (induction n)
  case 0
  then show ?case by simp
next
  case (Suc n)
  show ?case
  proof (cases "bit w n")
    case True
    then show ?thesis by auto
  next
    case False
    with Suc show ?thesis
      by (auto simp: less_Suc_eq)
  qed
qed

lemma bit_unat_ge:
  assumes "bit (w :: u32) j"
  shows "2 ^ j \<le> unat w"
proof (rule ccontr)
  assume "\<not> 2 ^ j \<le> unat w"
  then have "unat w div 2 ^ j = 0" by simp
  then have "\<not> bit (unat w) j" by (simp add: bit_iff_odd)
  with assms show False by (simp add: bit_unsigned_iff)
qed

lemma high_bits_clear_less:
  assumes "\<forall>i. m \<le> i \<and> i < 32 \<longrightarrow> \<not> bit (w :: u32) i"
  shows "unat w < 2 ^ m"
proof -
  have "take_bit m w = w"
  proof (rule bit_eqI)
    fix i
    show "bit (take_bit m w) i = bit w i"
    proof (cases "bit w i")
      case True
      then have "i < 32" using bit_imp_le_length [of w i] by simp
      with True assms have "i < m" by (meson not_le)
      with True show ?thesis by (simp add: bit_take_bit_iff)
    next
      case False
      then show ?thesis by (simp add: bit_take_bit_iff)
    qed
  qed
  then have "unat w = take_bit m (unat w)"
    by (metis unsigned_take_bit_eq)
  also have "\<dots> < 2 ^ m" by (rule take_bit_nat_less_exp)
  finally show ?thesis .
qed

lemma unat_mask32: "n \<le> 32 \<Longrightarrow> unat (mask n :: u32) = 2 ^ n - 1"
proof -
  assume "n \<le> 32"
  then have "unat (mask n :: u32) = mask n"
    by (simp add: unat_eq_nat_uint uint_mask_eq min_def nat_mask_eq)
  then show ?thesis by (simp add: mask_eq_exp_minus_1)
qed

lemma leading_zero_bits_bounds:
  assumes "w \<noteq> 0"
  shows "leading_zero_bits w < 32"
    and "2 ^ (31 - leading_zero_bits w) \<le> unat w"
    and "unat w < 2 ^ (32 - leading_zero_bits w)"
proof -
  let ?c = "leading_zero_bits w"
  have c: "?c = clz_from 32 w"
    by (simp add: leading_zero_bits_def clz_from_takeWhile)
  note b = clz_from_bits [of 32 w, folded c]
  from b have clear: "\<forall>i. 32 - ?c \<le> i \<and> i < 32 \<longrightarrow> \<not> bit w i" by blast
  from high_bits_clear_less [OF clear] show up: "unat w < 2 ^ (32 - ?c)" .
  show lt: "?c < 32"
  proof (rule ccontr)
    assume "\<not> ?c < 32"
    with b have "?c = 32" by simp
    with up have "unat w = 0" by simp
    with assms show False by (simp add: unat_eq_0)
  qed
  with b have "bit w (32 - ?c - 1)" by blast
  from bit_unat_ge [OF this] show "2 ^ (31 - ?c) \<le> unat w" by simp
qed

lemma unat_pow2_word:
  assumes "k < 32"
  shows "unat (2 ^ k :: u32) = 2 ^ k"
proof -
  have lt: "(2 :: nat) ^ k < 2 ^ 32" using assms by (rule power_strict_increasing) simp
  have e: "(2 ^ k :: u32) = of_nat (2 ^ k)" by simp
  show ?thesis by (subst e, subst unat_of_nat) (use lt in simp)
qed

lemma rng_uint_mask_not_pow2:
  assumes "bound AND (bound - 1) \<noteq> 0"
  shows "rng_uint_mask bound = drop_bit (leading_zero_bits bound) 0xFFFFFFFF"
    and "leading_zero_bits bound < 32"
    and "2 ^ (31 - leading_zero_bits bound) < unat bound"
    and "unat bound < 2 ^ (32 - leading_zero_bits bound)"
    and "unat (rng_uint_mask bound) = 2 ^ (32 - leading_zero_bits bound) - 1"
proof -
  let ?c = "leading_zero_bits bound"
  from assms have nz: "bound \<noteq> 0" by auto
  note lz = leading_zero_bits_bounds [OF nz]
  have m1: "(0xFFFFFFFF :: u32) = - 1" by simp
  from assms show mask: "rng_uint_mask bound = drop_bit ?c 0xFFFFFFFF"
    by (simp only: rng_uint_mask_def if_False builtin_clz_leading_zero_bits m1)
  show "?c < 32" by (rule lz(1))
  show "unat bound < 2 ^ (32 - ?c)" by (rule lz(3))
  show "2 ^ (31 - ?c) < unat bound"
  proof (rule ccontr)
    assume "\<not> 2 ^ (31 - ?c) < unat bound"
    with lz(2) have "unat bound = 2 ^ (31 - ?c)" by simp
    also have "\<dots> = unat (2 ^ (31 - ?c) :: u32)"
      by (simp add: unat_pow2_word)
    finally have "bound = 2 ^ (31 - ?c)" by (simp only: word_unat_eq_iff)
    moreover have "(2 ^ (31 - ?c) :: u32) AND (2 ^ (31 - ?c) - 1) = 0"
      by (rule pow2_and_pred) simp
    ultimately show False using assms by simp
  qed
  have "drop_bit ?c (- 1 :: u32) = mask (32 - ?c)"
    by (simp add: drop_bit_of_minus_1_eq)
  with mask m1 have "rng_uint_mask bound = mask (32 - ?c)" by simp
  then show "unat (rng_uint_mask bound) = 2 ^ (32 - ?c) - 1"
    by (simp add: unat_mask32)
qed

lemma leading_zero_bits_10: "leading_zero_bits 10 = 28"
  by code_simp

subsection \<open>The bounded integer sampler\<close>

lemma rng_uint_loop_success_below:
  "rng_uint_loop cfg bound mask32 quality uint_mem value_w attempts s
     = Some (Returns (CC3XX_ERR_SUCCESS, v) s') \<Longrightarrow> v < bound"
proof (induction cfg bound mask32 quality uint_mem value_w attempts s rule: rng_uint_loop.induct)
  case (1 cfg bound mask32 quality uint_mem value_w attempts s)
  note run = "1.prems" [unfolded rng_uint_loop.simps [of cfg bound mask32 quality uint_mem value_w attempts s]]
  show ?case
  proof (cases "cc3xx_lowlevel_rng_get_random cfg 0 (le_bytes32 value_w) 4 quality s")
    case None
    with run show ?thesis by simp
  next
    case (Some oc)
    show ?thesis
    proof (cases oc)
      case (Returns r s1)
      obtain err bytes where r: "r = (err, bytes)" by (cases r)
      show ?thesis
      proof (cases "err \<noteq> CC3XX_ERR_SUCCESS")
        case True
        with run Some Returns r show ?thesis by simp
      next
        case ok: False
        show ?thesis
        proof (cases "CC3XX_CONFIG_RNG_MAX_ATTEMPTS cfg \<le> attempts + 1")
          case True
          with run Some Returns r ok show ?thesis
            by (simp add: FATAL_ERR_def Let_def split: if_splits)
        next
          case lim: False
          show ?thesis
          proof (cases "bound \<le> le_word (take 4 bytes) AND mask32")
            case True
            with run Some Returns r ok lim
            have "rng_uint_loop cfg bound mask32 quality uint_mem
              (le_word (take 4 bytes) AND mask32) (attempts + 1) s1
                    = Some (Returns (CC3XX_ERR_SUCCESS, v) s')"
              by simp
            with "1.IH" [OF Some Returns r [symmetric] _ lim True] ok show ?thesis
              by simp
          next
            case False
            with run Some Returns r ok lim show ?thesis by auto
          qed
        qed
      qed
    next
      case (AssertFailed s1)
      with run Some show ?thesis by simp
    next
      case (FatalHalt s1)
      with run Some show ?thesis by simp
    qed
  qed
qed

lemma rng_uint_loop_uint_mem:
  "rng_uint_loop cfg bound mask32 quality uint_mem value_w attempts s =
     (case rng_uint_loop cfg bound mask32 quality uint_mem' value_w attempts s of
        None \<Rightarrow> None
      | Some (AssertFailed s') \<Rightarrow> Some (AssertFailed s')
      | Some (FatalHalt s') \<Rightarrow> Some (FatalHalt s')
      | Some (Returns (err, v) s') \<Rightarrow>
          Some (Returns (err, if err = CC3XX_ERR_SUCCESS then v else uint_mem) s'))"
proof (induction cfg bound mask32 quality uint_mem value_w attempts s rule: rng_uint_loop.induct)
  case (1 cfg bound mask32 quality uint_mem value_w attempts s)
  note l = rng_uint_loop.simps [of cfg bound mask32 quality uint_mem value_w attempts s]
  note r = rng_uint_loop.simps [of cfg bound mask32 quality uint_mem' value_w attempts s]
  show ?case
  proof (cases "cc3xx_lowlevel_rng_get_random cfg 0 (le_bytes32 value_w) 4 quality s")
    case None
    then show ?thesis by (simp add: l r)
  next
    case (Some oc)
    show ?thesis
    proof (cases oc)
      case (Returns rr s1)
      obtain err bytes where rr: "rr = (err, bytes)" by (cases rr)
      show ?thesis
      proof (cases "err \<noteq> CC3XX_ERR_SUCCESS")
        case True
        with Some Returns rr show ?thesis by (simp add: l r)
      next
        case ok: False
        show ?thesis
        proof (cases "CC3XX_CONFIG_RNG_MAX_ATTEMPTS cfg \<le> attempts + 1")
          case True
          with Some Returns rr ok show ?thesis
            by (simp add: l r FATAL_ERR_def Let_def)
        next
          case lim: False
          show ?thesis
          proof (cases "bound \<le> le_word (take 4 bytes) AND mask32")
            case True
            from "1.IH" [OF Some Returns rr [symmetric] _ lim True] ok
            have "rng_uint_loop cfg bound mask32 quality uint_mem
              (le_word (take 4 bytes) AND mask32) (attempts + 1) s1 =
              (case rng_uint_loop cfg bound mask32 quality uint_mem'
              (le_word (take 4 bytes) AND mask32) (attempts + 1) s1 of
                 None \<Rightarrow> None
               | Some (AssertFailed s') \<Rightarrow> Some (AssertFailed s')
               | Some (FatalHalt s') \<Rightarrow> Some (FatalHalt s')
               | Some (Returns (err, v) s') \<Rightarrow>
                   Some (Returns (err, if err = CC3XX_ERR_SUCCESS then v else uint_mem) s'))"
              by simp
            with Some Returns rr ok lim True show ?thesis by (simp add: l r)
          next
            case False
            with Some Returns rr ok lim show ?thesis by (simp add: l r)
          qed
        qed
      qed
    next
      case (AssertFailed s1)
      with Some show ?thesis by (simp add: l r)
    next
      case (FatalHalt s1)
      with Some show ?thesis by (simp add: l r)
    qed
  qed
qed

lemma get_random_uint_uint_mem:
  "cc3xx_lowlevel_rng_get_random_uint cfg bound uint_mem quality value_w s =
     (case cc3xx_lowlevel_rng_get_random_uint cfg bound 0 quality value_w s of
        None \<Rightarrow> None
      | Some (AssertFailed s') \<Rightarrow> Some (AssertFailed s')
      | Some (FatalHalt s') \<Rightarrow> Some (FatalHalt s')
      | Some (Returns (err, v) s') \<Rightarrow>
          Some (Returns (err, if err = CC3XX_ERR_SUCCESS then v else uint_mem) s'))"
  using rng_uint_loop_uint_mem [of cfg bound "rng_uint_mask bound" quality uint_mem value_w 0 s 0]
  by (simp add: cc3xx_lowlevel_rng_get_random_uint_def)

lemma rng_uint_loop_error_uint_mem:
  assumes "rng_uint_loop cfg bound mask32 quality uint_mem value_w attempts s
             = Some (Returns (err, v) s')"
    and "err \<noteq> CC3XX_ERR_SUCCESS"
  shows "v = uint_mem"
  using assms rng_uint_loop_uint_mem [of cfg bound mask32 quality uint_mem value_w attempts s uint_mem]
  by simp

lemma rng_uint_loop_draw_error:
  "cc3xx_lowlevel_rng_get_random cfg 0 (le_bytes32 value_w) 4 quality s = Some (Returns (err, bytes) s1)
   \<Longrightarrow> err \<noteq> CC3XX_ERR_SUCCESS
   \<Longrightarrow> rng_uint_loop cfg bound mask32 quality uint_mem value_w attempts s = Some (Returns (err, uint_mem) s1)"
  by (subst rng_uint_loop.simps) simp

lemma rng_uint_loop_limit:
  "cc3xx_lowlevel_rng_get_random cfg 0 (le_bytes32 value_w) 4 quality s
     = Some (Returns (CC3XX_ERR_SUCCESS, bytes) s1)
   \<Longrightarrow> CC3XX_CONFIG_RNG_MAX_ATTEMPTS cfg \<le> attempts + 1
   \<Longrightarrow> rng_uint_loop cfg bound mask32 quality uint_mem value_w attempts s
       = (if FATAL_ERR_HALTS cfg
          then Some (FatalHalt (s1\<lparr>fatal_errors :=
                  fatal_errors s1 @ [CC3XX_ERR_RNG_TOO_MANY_ATTEMPTS]\<rparr>))
          else Some (Returns (CC3XX_ERR_RNG_TOO_MANY_ATTEMPTS, uint_mem)
                 (s1\<lparr>fatal_errors := fatal_errors s1 @ [CC3XX_ERR_RNG_TOO_MANY_ATTEMPTS]\<rparr>)))"
  by (subst rng_uint_loop.simps) (simp add: FATAL_ERR_def Let_def)

lemma rng_uint_loop_retry:
  "cc3xx_lowlevel_rng_get_random cfg 0 (le_bytes32 value_w) 4 quality s
     = Some (Returns (CC3XX_ERR_SUCCESS, bytes) s1)
   \<Longrightarrow> \<not> CC3XX_CONFIG_RNG_MAX_ATTEMPTS cfg \<le> attempts + 1
   \<Longrightarrow> bound \<le> le_word (take 4 bytes) AND mask32
   \<Longrightarrow> rng_uint_loop cfg bound mask32 quality uint_mem value_w attempts s
       = rng_uint_loop cfg bound mask32 quality uint_mem
              (le_word (take 4 bytes) AND mask32) (attempts + 1) s1"
  by (subst rng_uint_loop.simps) simp

lemma rng_uint_loop_accept:
  "cc3xx_lowlevel_rng_get_random cfg 0 (le_bytes32 value_w) 4 quality s
     = Some (Returns (CC3XX_ERR_SUCCESS, bytes) s1)
   \<Longrightarrow> \<not> CC3XX_CONFIG_RNG_MAX_ATTEMPTS cfg \<le> attempts + 1
   \<Longrightarrow> \<not> bound \<le> le_word (take 4 bytes) AND mask32
   \<Longrightarrow> rng_uint_loop cfg bound mask32 quality uint_mem value_w attempts s
       = Some (Returns (CC3XX_ERR_SUCCESS, le_word (take 4 bytes) AND mask32) s1)"
  by (subst rng_uint_loop.simps) simp

text \<open>
  Claim C6, as amended. The only check of the bound is the \<^verbatim>\<open>assert\<close> at the head of
  \<^verbatim>\<open>cc3xx_lowlevel_rng_get_random_uint\<close>. Where assertions are compiled in, a call with
  \<open>bound = 0\<close> stops on it before anything else happens: the state it stops in is the
  state it was called in, so no byte of either pool has been consumed, no register
  has been read or written and no draw has been made; the caller gets no error code.
  Under \<open>NDEBUG\<close> there is no check: the mask is the all-ones word, the call enters the
  loop at once, and every successful draw made below the attempt limit is rejected
  and followed by another draw, whatever its bytes. Such a call never returns
  \<open>CC3XX_ERR_SUCCESS\<close>, and when it returns it has not stored through \<^verbatim>\<open>uint\<close>.
\<close>

theorem C6_zero_bound_rejected:
  "(\<not> NDEBUG cfg \<longrightarrow>
      cc3xx_lowlevel_rng_get_random_uint cfg 0 uint_mem quality value_w s = Some (AssertFailed s))
   \<and> (NDEBUG cfg \<longrightarrow>
        rng_uint_mask 0 = 0xFFFFFFFF
        \<and> cc3xx_lowlevel_rng_get_random_uint cfg 0 uint_mem quality value_w s
            = rng_uint_loop cfg 0 0xFFFFFFFF quality uint_mem value_w 0 s
        \<and> (\<forall>err v s'. cc3xx_lowlevel_rng_get_random_uint cfg 0 uint_mem quality value_w s
                          = Some (Returns (err, v) s') \<longrightarrow>
                        err \<noteq> CC3XX_ERR_SUCCESS \<and> v = uint_mem)
        \<and> (cc3xx_lowlevel_rng_get_random cfg 0 (le_bytes32 value_w') 4 quality t
                = Some (Returns (CC3XX_ERR_SUCCESS, bytes) t1)
              \<and> \<not> CC3XX_CONFIG_RNG_MAX_ATTEMPTS cfg \<le> attempts + 1 \<longrightarrow>
            rng_uint_loop cfg 0 0xFFFFFFFF quality uint_mem value_w' attempts t
              = rng_uint_loop cfg 0 0xFFFFFFFF quality uint_mem
                  (le_word (take 4 bytes) AND 0xFFFFFFFF) (attempts + 1) t1))"
proof (intro conjI impI allI)
  assume "\<not> NDEBUG cfg"
  then show "cc3xx_lowlevel_rng_get_random_uint cfg 0 uint_mem quality value_w s
               = Some (AssertFailed s)"
    by (simp add: cc3xx_lowlevel_rng_get_random_uint_def)
next
  show m: "rng_uint_mask 0 = 0xFFFFFFFF"
    by (simp add: rng_uint_mask_def)
  assume "NDEBUG cfg"
  then show call: "cc3xx_lowlevel_rng_get_random_uint cfg 0 uint_mem quality value_w s
            = rng_uint_loop cfg 0 0xFFFFFFFF quality uint_mem value_w 0 s"
    by (simp add: cc3xx_lowlevel_rng_get_random_uint_def m)
  fix err v s'
  assume "cc3xx_lowlevel_rng_get_random_uint cfg 0 uint_mem quality value_w s
            = Some (Returns (err, v) s')"
  with call have run: "rng_uint_loop cfg 0 0xFFFFFFFF quality uint_mem value_w 0 s
            = Some (Returns (err, v) s')"
    by simp
  show e: "err \<noteq> CC3XX_ERR_SUCCESS"
  proof
    assume "err = CC3XX_ERR_SUCCESS"
    with run rng_uint_loop_success_below [of cfg 0 "0xFFFFFFFF" quality uint_mem value_w 0 s v s']
    show False by simp
  qed
  from rng_uint_loop_error_uint_mem [OF run e] show "v = uint_mem" .
next
  assume "cc3xx_lowlevel_rng_get_random cfg 0 (le_bytes32 value_w') 4 quality t
                = Some (Returns (CC3XX_ERR_SUCCESS, bytes) t1)
              \<and> \<not> CC3XX_CONFIG_RNG_MAX_ATTEMPTS cfg \<le> attempts + 1"
  then show "rng_uint_loop cfg 0 0xFFFFFFFF quality uint_mem value_w' attempts t
              = rng_uint_loop cfg 0 0xFFFFFFFF quality uint_mem
                  (le_word (take 4 bytes) AND 0xFFFFFFFF) (attempts + 1) t1"
    by (intro rng_uint_loop_retry) simp_all
qed

text \<open>
  An instance, with an attempt limit of 2 and a pool that holds the words 3 and 5.
  With assertions the call stops where it started. Under \<open>NDEBUG\<close> it makes two draws
  and ends with \<open>CC3XX_ERR_RNG_TOO_MANY_ATTEMPTS\<close>, the word behind \<^verbatim>\<open>uint\<close> still 7.
\<close>

theorem C6_zero_bound_rejected_witness:
  "cc3xx_lowlevel_rng_get_random_uint (example_config 2 True False) 0 7
       CC3XX_RNG_CRYPTOGRAPHICALLY_SECURE 5
       (example_state (example_config 2 True False) [3, 0, 0, 0, 5, 0, 0, 0] 0)
     = Some (AssertFailed (example_state (example_config 2 True False) [3, 0, 0, 0, 5, 0, 0, 0] 0))
   \<and> NDEBUG ((example_config 2 True False)\<lparr>NDEBUG := True\<rparr>)
   \<and> rng_uint_mask 0 = 0xFFFFFFFF
   \<and> cc3xx_lowlevel_rng_get_random_uint ((example_config 2 True False)\<lparr>NDEBUG := True\<rparr>) 0 7
         CC3XX_RNG_CRYPTOGRAPHICALLY_SECURE 5
         (example_state ((example_config 2 True False)\<lparr>NDEBUG := True\<rparr>)
            [3, 0, 0, 0, 5, 0, 0, 0] 0)
       = Some (Returns (CC3XX_ERR_RNG_TOO_MANY_ATTEMPTS, 7)
           ((example_state ((example_config 2 True False)\<lparr>NDEBUG := True\<rparr>)
               [3, 0, 0, 0, 5, 0, 0, 0] 8)
              \<lparr>fatal_errors := [CC3XX_ERR_RNG_TOO_MANY_ATTEMPTS]\<rparr>))
   \<and> CC3XX_ERR_RNG_TOO_MANY_ATTEMPTS \<noteq> CC3XX_ERR_SUCCESS"
proof -
  let ?c = "example_config 2 True False"
  let ?n = "(example_config 2 True False)\<lparr>NDEBUG := True\<rparr>"
  have a: "\<not> NDEBUG ?c" by (simp add: example_config_def)
  have n: "NDEBUG ?n" by simp
  have run: "cc3xx_lowlevel_rng_get_random_uint ?n 0 7 CC3XX_RNG_CRYPTOGRAPHICALLY_SECURE 5
         (example_state ?n [3, 0, 0, 0, 5, 0, 0, 0] 0)
       = Some (Returns (CC3XX_ERR_RNG_TOO_MANY_ATTEMPTS, 7)
           ((example_state ?n [3, 0, 0, 0, 5, 0, 0, 0] 8)
              \<lparr>fatal_errors := [CC3XX_ERR_RNG_TOO_MANY_ATTEMPTS]\<rparr>))"
    by code_simp
  note i1 = C6_zero_bound_rejected [where cfg = ?c and uint_mem = 7 and value_w = 5
      and quality = CC3XX_RNG_CRYPTOGRAPHICALLY_SECURE
      and s = "example_state ?c [3, 0, 0, 0, 5, 0, 0, 0] 0", THEN conjunct1, rule_format, OF a]
  note i2 = C6_zero_bound_rejected [where cfg = ?n and uint_mem = 7 and value_w = 5
      and quality = CC3XX_RNG_CRYPTOGRAPHICALLY_SECURE
      and s = "example_state ?n [3, 0, 0, 0, 5, 0, 0, 0] 0", THEN conjunct2, rule_format, OF n]
  from i2 have m: "rng_uint_mask 0 = 0xFFFFFFFF"
    and e: "\<And>err v s'. cc3xx_lowlevel_rng_get_random_uint ?n 0 7
                CC3XX_RNG_CRYPTOGRAPHICALLY_SECURE 5
                (example_state ?n [3, 0, 0, 0, 5, 0, 0, 0] 0) = Some (Returns (err, v) s')
              \<Longrightarrow> err \<noteq> CC3XX_ERR_SUCCESS"
    by blast+
  from e [OF run] have ne: "CC3XX_ERR_RNG_TOO_MANY_ATTEMPTS \<noteq> CC3XX_ERR_SUCCESS" .
  from i1 n m run ne show ?thesis by (intro conjI)
qed

text \<open>
  The claim as stated fails in a build with \<open>NDEBUG\<close>. From the initial state, with an
  attempt limit of 2 and the hardware delivering valid entropy, a call with
  \<open>bound = 0\<close> is not rejected: it switches the entropy source on, reads the two
  entropy words into the pool, consumes all eight bytes of the pool in two draws and
  returns \<open>CC3XX_ERR_RNG_TOO_MANY_ATTEMPTS\<close>.
\<close>

theorem C6_counterexample:
  "\<exists>s'. cc3xx_lowlevel_rng_get_random_uint ((example_config 2 True False)\<lparr>NDEBUG := True\<rparr>) 0 7
           CC3XX_RNG_CRYPTOGRAPHICALLY_SECURE 5
           (initial_state ((example_config 2 True False)\<lparr>NDEBUG := True\<rparr>) [1, 1] [0x1337]
              [0x04030201, 0x08070605])
         = Some (Returns (CC3XX_ERR_RNG_TOO_MANY_ATTEMPTS, 7) s')
       \<and> entropy_buf s' = [1, 2, 3, 4, 5, 6, 7, 8]
       \<and> entropy_buf_used_idx s' = 8
       \<and> rng_isr_reads s' = [] \<and> sample_cnt1_reads s' = [] \<and> ehr_data_reads s' = []
       \<and> reg_writes s' \<noteq> []
       \<and> fatal_errors s' = [CC3XX_ERR_RNG_TOO_MANY_ATTEMPTS]"
proof -
  have "case cc3xx_lowlevel_rng_get_random_uint ((example_config 2 True False)\<lparr>NDEBUG := True\<rparr>)
           0 7 CC3XX_RNG_CRYPTOGRAPHICALLY_SECURE 5
           (initial_state ((example_config 2 True False)\<lparr>NDEBUG := True\<rparr>) [1, 1] [0x1337]
              [0x04030201, 0x08070605]) of
          Some (Returns (err, v) s') \<Rightarrow>
            err = CC3XX_ERR_RNG_TOO_MANY_ATTEMPTS \<and> v = 7
            \<and> entropy_buf s' = [1, 2, 3, 4, 5, 6, 7, 8]
            \<and> entropy_buf_used_idx s' = 8
            \<and> rng_isr_reads s' = [] \<and> sample_cnt1_reads s' = [] \<and> ehr_data_reads s' = []
            \<and> reg_writes s' \<noteq> []
            \<and> fatal_errors s' = [CC3XX_ERR_RNG_TOO_MANY_ATTEMPTS]
        | _ \<Rightarrow> False"
    by code_simp
  then show ?thesis
    by (auto split: option.splits outcome.splits prod.splits)
qed

text \<open>
  Claim C1. For every bound of at least 1 and every quality, when
  \<^verbatim>\<open>cc3xx_lowlevel_rng_get_random_uint\<close> returns \<open>CC3XX_ERR_SUCCESS\<close>, the value it has
  stored through \<^verbatim>\<open>uint\<close> is strictly less than the bound.
\<close>

theorem C1_uint_below_bound:
  assumes "1 \<le> bound"
    and "cc3xx_lowlevel_rng_get_random_uint cfg bound uint_mem quality value_w s
           = Some (Returns (CC3XX_ERR_SUCCESS, v) s')"
  shows "v < bound"
  using assms rng_uint_loop_success_below
  by (auto simp: cc3xx_lowlevel_rng_get_random_uint_def split: if_splits)


text \<open>
  Claim C5, as amended. For a bound that is a power of two, \<open>2 ^ k\<close> with \<open>k < 32\<close>, the
  mask is the bound minus one, every masked word is below the bound, and a successful
  draw made before the attempt counter reaches the limit is accepted at once. For a
  bound with more than one bit set the mask is the all-ones word shifted right by the
  count of leading zero bits of the bound: with \<open>n\<close> the number of the remaining bits,
  \<open>2 ^ (n - 1) < bound < 2 ^ n\<close> and the mask is \<open>2 ^ n - 1\<close>. For the bound 10 the
  count is 28 and the mask is \<open>0x0F\<close>; a draw made before the limit whose masked value
  is 10 or more (so one of 10 to 15) is rejected, and the loop goes on to the next draw
  with the counter incremented. The draw on which the counter reaches
  \<open>CC3XX_CONFIG_RNG_MAX_ATTEMPTS\<close> is neither accepted nor followed by another draw,
  whatever the bound and the bytes drawn: the call records the fatal error and ends.
\<close>

theorem C5_mask_and_rejection:
  "(k < 32 \<longrightarrow>
      rng_uint_mask (2 ^ k) = 2 ^ k - 1
      \<and> (\<forall>w. w AND rng_uint_mask (2 ^ k) < 2 ^ k)
      \<and> (cc3xx_lowlevel_rng_get_random cfg 0 (le_bytes32 value_w) 4 quality s
            = Some (Returns (CC3XX_ERR_SUCCESS, bytes) s1)
          \<and> \<not> CC3XX_CONFIG_RNG_MAX_ATTEMPTS cfg \<le> attempts + 1 \<longrightarrow>
          rng_uint_loop cfg (2 ^ k) (rng_uint_mask (2 ^ k)) quality uint_mem value_w attempts s
            = Some (Returns (CC3XX_ERR_SUCCESS, le_word (take 4 bytes) AND (2 ^ k - 1)) s1)))
   \<and> (bound AND (bound - 1) \<noteq> 0 \<longrightarrow>
        rng_uint_mask bound = drop_bit (leading_zero_bits bound) 0xFFFFFFFF
        \<and> leading_zero_bits bound < 32
        \<and> 2 ^ (31 - leading_zero_bits bound) < unat bound
        \<and> unat bound < 2 ^ (32 - leading_zero_bits bound)
        \<and> unat (rng_uint_mask bound) = 2 ^ (32 - leading_zero_bits bound) - 1)
   \<and> leading_zero_bits 10 = 28
   \<and> rng_uint_mask 10 = 0x0F
   \<and> (cc3xx_lowlevel_rng_get_random cfg 0 (le_bytes32 value_w) 4 quality s
            = Some (Returns (CC3XX_ERR_SUCCESS, bytes) s1)
       \<and> \<not> CC3XX_CONFIG_RNG_MAX_ATTEMPTS cfg \<le> attempts + 1
       \<and> 10 \<le> le_word (take 4 bytes) AND (0x0F :: u32) \<longrightarrow>
       le_word (take 4 bytes) AND (0x0F :: u32) \<le> 15
       \<and> rng_uint_loop cfg 10 (rng_uint_mask 10) quality uint_mem value_w attempts s
            = rng_uint_loop cfg 10 (rng_uint_mask 10) quality uint_mem
                (le_word (take 4 bytes) AND 0x0F) (attempts + 1) s1)
   \<and> (cc3xx_lowlevel_rng_get_random cfg 0 (le_bytes32 value_w) 4 quality s
            = Some (Returns (CC3XX_ERR_SUCCESS, bytes) s1)
       \<and> CC3XX_CONFIG_RNG_MAX_ATTEMPTS cfg \<le> attempts + 1 \<longrightarrow>
       rng_uint_loop cfg bound' mask32 quality uint_mem value_w attempts s
         = (if FATAL_ERR_HALTS cfg
            then Some (FatalHalt (s1\<lparr>fatal_errors :=
                    fatal_errors s1 @ [CC3XX_ERR_RNG_TOO_MANY_ATTEMPTS]\<rparr>))
            else Some (Returns (CC3XX_ERR_RNG_TOO_MANY_ATTEMPTS, uint_mem)
                   (s1\<lparr>fatal_errors := fatal_errors s1 @ [CC3XX_ERR_RNG_TOO_MANY_ATTEMPTS]\<rparr>))))"
proof (intro conjI impI allI)
  assume k: "k < 32"
  show "rng_uint_mask (2 ^ k) = 2 ^ k - 1"
    using k by (rule rng_uint_mask_pow2)
  show "w AND rng_uint_mask (2 ^ k) < 2 ^ k" for w
    using k by (simp add: rng_uint_mask_pow2 and_pow2_pred_less)
  assume "cc3xx_lowlevel_rng_get_random cfg 0 (le_bytes32 value_w) 4 quality s
            = Some (Returns (CC3XX_ERR_SUCCESS, bytes) s1)
          \<and> \<not> CC3XX_CONFIG_RNG_MAX_ATTEMPTS cfg \<le> attempts + 1"
  moreover have "\<not> 2 ^ k \<le> le_word (take 4 bytes) AND (2 ^ k - 1 :: u32)"
    using and_pow2_pred_less [OF k] by (simp add: not_le)
  ultimately show "rng_uint_loop cfg (2 ^ k) (rng_uint_mask (2 ^ k)) quality uint_mem value_w attempts s
            = Some (Returns (CC3XX_ERR_SUCCESS, le_word (take 4 bytes) AND (2 ^ k - 1)) s1)"
    using k by (simp add: rng_uint_mask_pow2 rng_uint_loop_accept)
next
  assume np: "bound AND (bound - 1) \<noteq> 0"
  show "rng_uint_mask bound = drop_bit (leading_zero_bits bound) 0xFFFFFFFF"
    using np by (rule rng_uint_mask_not_pow2)
  show "leading_zero_bits bound < 32"
    using np by (rule rng_uint_mask_not_pow2)
  show "2 ^ (31 - leading_zero_bits bound) < unat bound"
    using np by (rule rng_uint_mask_not_pow2)
  show "unat bound < 2 ^ (32 - leading_zero_bits bound)"
    using np by (rule rng_uint_mask_not_pow2)
  show "unat (rng_uint_mask bound) = 2 ^ (32 - leading_zero_bits bound) - 1"
    using np by (rule rng_uint_mask_not_pow2)
next
  show "leading_zero_bits 10 = 28" by (rule leading_zero_bits_10)
  show "rng_uint_mask 10 = 0x0F" by (rule rng_uint_mask_10)
next
  show "le_word (take 4 bytes) AND (0x0F :: u32) \<le> 15"
    by (rule word_and_le1)
next
  assume "cc3xx_lowlevel_rng_get_random cfg 0 (le_bytes32 value_w) 4 quality s
            = Some (Returns (CC3XX_ERR_SUCCESS, bytes) s1)
       \<and> \<not> CC3XX_CONFIG_RNG_MAX_ATTEMPTS cfg \<le> attempts + 1
       \<and> 10 \<le> le_word (take 4 bytes) AND (0x0F :: u32)"
  then show "rng_uint_loop cfg 10 (rng_uint_mask 10) quality uint_mem value_w attempts s
            = rng_uint_loop cfg 10 (rng_uint_mask 10) quality uint_mem
                (le_word (take 4 bytes) AND 0x0F) (attempts + 1) s1"
    by (simp add: rng_uint_mask_10 rng_uint_loop_retry)
next
  assume "cc3xx_lowlevel_rng_get_random cfg 0 (le_bytes32 value_w) 4 quality s
            = Some (Returns (CC3XX_ERR_SUCCESS, bytes) s1)
       \<and> CC3XX_CONFIG_RNG_MAX_ATTEMPTS cfg \<le> attempts + 1"
  then show "rng_uint_loop cfg bound' mask32 quality uint_mem value_w attempts s
         = (if FATAL_ERR_HALTS cfg
            then Some (FatalHalt (s1\<lparr>fatal_errors :=
                    fatal_errors s1 @ [CC3XX_ERR_RNG_TOO_MANY_ATTEMPTS]\<rparr>))
            else Some (Returns (CC3XX_ERR_RNG_TOO_MANY_ATTEMPTS, uint_mem)
                   (s1\<lparr>fatal_errors := fatal_errors s1 @ [CC3XX_ERR_RNG_TOO_MANY_ATTEMPTS]\<rparr>)))"
    by (simp only: rng_uint_loop_limit)
qed


lemma ex_draw_1:
  "cc3xx_lowlevel_rng_get_random (example_config 16 True False) 0 (le_bytes32 0) 4
     CC3XX_RNG_CRYPTOGRAPHICALLY_SECURE
     (example_state (example_config 16 True False) [0xFB, 0, 0, 0, 0x03, 0, 0, 0] 0)
   = Some (Returns (CC3XX_ERR_SUCCESS, [0xFB, 0, 0, 0])
       (example_state (example_config 16 True False) [0xFB, 0, 0, 0, 0x03, 0, 0, 0] 4))"
  by code_simp

lemma ex_draw_limit_1:
  "cc3xx_lowlevel_rng_get_random (example_config 1 True False) 0 (le_bytes32 0) 4
     CC3XX_RNG_CRYPTOGRAPHICALLY_SECURE
     (example_state (example_config 1 True False) [0xFB, 0, 0, 0, 0x03, 0, 0, 0] 0)
   = Some (Returns (CC3XX_ERR_SUCCESS, [0xFB, 0, 0, 0])
       (example_state (example_config 1 True False) [0xFB, 0, 0, 0, 0x03, 0, 0, 0] 4))"
  by code_simp

text \<open>
  An instance: the pool holds the words \<open>0xFB\<close> and \<open>0x03\<close>. Bound 8 accepts the first
  draw (\<open>0xFB\<close> masked to 3); bound 12 has two bits set, 28 leading zero bits and the
  mask \<open>0x0F\<close>; bound 10 rejects the first draw (\<open>0xFB\<close> masked to 11) and goes on with
  the counter at 1; with an attempt limit of 1 the first draw is the last and the call
  ends with the error.
\<close>

theorem C5_mask_and_rejection_witness:
  "rng_uint_mask (2 ^ 3) = 2 ^ 3 - 1
   \<and> rng_uint_loop (example_config 16 True False) (2 ^ 3) (rng_uint_mask (2 ^ 3))
        CC3XX_RNG_CRYPTOGRAPHICALLY_SECURE 0 0 0
        (example_state (example_config 16 True False) [0xFB, 0, 0, 0, 0x03, 0, 0, 0] 0)
      = Some (Returns (CC3XX_ERR_SUCCESS, 3)
          (example_state (example_config 16 True False) [0xFB, 0, 0, 0, 0x03, 0, 0, 0] 4))
   \<and> (12 :: u32) AND (12 - 1) \<noteq> 0
   \<and> rng_uint_mask 12 = drop_bit (leading_zero_bits 12) 0xFFFFFFFF
   \<and> leading_zero_bits 12 = 28
   \<and> unat (rng_uint_mask 12) = 2 ^ (32 - leading_zero_bits 12) - 1
   \<and> rng_uint_mask 10 = 0x0F
   \<and> (10 :: u32) \<le> le_word (take 4 [0xFB, 0, 0, 0]) AND 0x0F
   \<and> rng_uint_loop (example_config 16 True False) 10 (rng_uint_mask 10)
        CC3XX_RNG_CRYPTOGRAPHICALLY_SECURE 0 0 0
        (example_state (example_config 16 True False) [0xFB, 0, 0, 0, 0x03, 0, 0, 0] 0)
      = rng_uint_loop (example_config 16 True False) 10 (rng_uint_mask 10)
        CC3XX_RNG_CRYPTOGRAPHICALLY_SECURE 0 (le_word (take 4 [0xFB, 0, 0, 0]) AND 0x0F) (0 + 1)
        (example_state (example_config 16 True False) [0xFB, 0, 0, 0, 0x03, 0, 0, 0] 4)
   \<and> rng_uint_loop (example_config 1 True False) 10 (rng_uint_mask 10)
        CC3XX_RNG_CRYPTOGRAPHICALLY_SECURE 0 0 0
        (example_state (example_config 1 True False) [0xFB, 0, 0, 0, 0x03, 0, 0, 0] 0)
      = Some (Returns (CC3XX_ERR_RNG_TOO_MANY_ATTEMPTS, 0)
          ((example_state (example_config 1 True False) [0xFB, 0, 0, 0, 0x03, 0, 0, 0] 4)
             \<lparr>fatal_errors := [CC3XX_ERR_RNG_TOO_MANY_ATTEMPTS]\<rparr>))"
proof -
  let ?c = "example_config 16 True False"
  let ?c1 = "example_config 1 True False"
  let ?s0 = "example_state ?c [0xFB, 0, 0, 0, 0x03, 0, 0, 0] 0"
  let ?s4 = "example_state ?c [0xFB, 0, 0, 0, 0x03, 0, 0, 0] 4"
  let ?t0 = "example_state ?c1 [0xFB, 0, 0, 0, 0x03, 0, 0, 0] 0"
  let ?t4 = "example_state ?c1 [0xFB, 0, 0, 0, 0x03, 0, 0, 0] 4"
  have k: "(3 :: nat) < 32" by simp
  have lim: "\<not> CC3XX_CONFIG_RNG_MAX_ATTEMPTS ?c \<le> 0 + 1"
    by code_simp
  have lim1: "CC3XX_CONFIG_RNG_MAX_ATTEMPTS ?c1 \<le> 0 + 1"
    by code_simp
  have nohalt: "\<not> FATAL_ERR_HALTS ?c1"
    by (simp add: example_config_def)
  have log: "fatal_errors ?t4 = []"
    by (simp add: example_state_def initial_state_def)
  have np: "(12 :: u32) AND (12 - 1) \<noteq> 0" by simp
  have v: "le_word (take 4 [0xFB, 0, 0, 0]) AND (2 ^ 3 - 1) = (3 :: u32)" by code_simp
  have rej: "(10 :: u32) \<le> le_word (take 4 [0xFB, 0, 0, 0]) AND 0x0F" by code_simp
  have lz: "leading_zero_bits 12 = 28" by code_simp
  note inst = C5_mask_and_rejection [where k = 3 and cfg = ?c
      and quality = CC3XX_RNG_CRYPTOGRAPHICALLY_SECURE and value_w = 0 and s = ?s0
      and bytes = "[0xFB, 0, 0, 0]" and ?s1.0 = ?s4 and attempts = 0 and uint_mem = 0
      and bound = 12]
  note inst1 = C5_mask_and_rejection [where k = 3 and cfg = ?c1
      and quality = CC3XX_RNG_CRYPTOGRAPHICALLY_SECURE and value_w = 0 and s = ?t0
      and bytes = "[0xFB, 0, 0, 0]" and ?s1.0 = ?t4 and attempts = 0 and uint_mem = 0
      and bound = 12 and bound' = 10 and ?mask32.0 = "rng_uint_mask 10"]
  note p2 = inst [THEN conjunct1, rule_format, OF k]
  from p2 have m8: "rng_uint_mask (2 ^ 3) = 2 ^ 3 - 1"
    by (rule conjunct1)
  from p2 [THEN conjunct2, THEN conjunct2, rule_format] ex_draw_1 lim
  have "rng_uint_loop ?c (2 ^ 3) (rng_uint_mask (2 ^ 3))
        CC3XX_RNG_CRYPTOGRAPHICALLY_SECURE 0 0 0 ?s0
      = Some (Returns (CC3XX_ERR_SUCCESS, le_word (take 4 [0xFB, 0, 0, 0]) AND (2 ^ 3 - 1)) ?s4)"
    by blast
  then have acc: "rng_uint_loop ?c (2 ^ 3) (rng_uint_mask (2 ^ 3))
        CC3XX_RNG_CRYPTOGRAPHICALLY_SECURE 0 0 0 ?s0 = Some (Returns (CC3XX_ERR_SUCCESS, 3) ?s4)"
    by (simp only: v)
  from inst [THEN conjunct2, THEN conjunct1, rule_format, OF np]
  have m12: "rng_uint_mask 12 = drop_bit (leading_zero_bits 12) 0xFFFFFFFF"
    and u12: "unat (rng_uint_mask 12) = 2 ^ (32 - leading_zero_bits 12) - 1"
    by blast+
  from inst [THEN conjunct2, THEN conjunct2, THEN conjunct2, THEN conjunct1]
  have m10: "rng_uint_mask 10 = 0x0F" .
  from inst [THEN conjunct2, THEN conjunct2, THEN conjunct2, THEN conjunct2, THEN conjunct1,
             rule_format] ex_draw_1 lim rej
  have retry: "rng_uint_loop ?c 10 (rng_uint_mask 10) CC3XX_RNG_CRYPTOGRAPHICALLY_SECURE 0 0 0 ?s0
      = rng_uint_loop ?c 10 (rng_uint_mask 10) CC3XX_RNG_CRYPTOGRAPHICALLY_SECURE 0
          (le_word (take 4 [0xFB, 0, 0, 0]) AND 0x0F) (0 + 1) ?s4"
    by blast
  from inst1 [THEN conjunct2, THEN conjunct2, THEN conjunct2, THEN conjunct2, THEN conjunct2,
              rule_format] ex_draw_limit_1 lim1
  have "rng_uint_loop ?c1 10 (rng_uint_mask 10) CC3XX_RNG_CRYPTOGRAPHICALLY_SECURE 0 0 0 ?t0
      = (if FATAL_ERR_HALTS ?c1
         then Some (FatalHalt (?t4\<lparr>fatal_errors :=
                 fatal_errors ?t4 @ [CC3XX_ERR_RNG_TOO_MANY_ATTEMPTS]\<rparr>))
         else Some (Returns (CC3XX_ERR_RNG_TOO_MANY_ATTEMPTS, 0)
                (?t4\<lparr>fatal_errors := fatal_errors ?t4 @ [CC3XX_ERR_RNG_TOO_MANY_ATTEMPTS]\<rparr>)))"
    by blast
  with nohalt log
  have last: "rng_uint_loop ?c1 10 (rng_uint_mask 10) CC3XX_RNG_CRYPTOGRAPHICALLY_SECURE 0 0 0 ?t0
      = Some (Returns (CC3XX_ERR_RNG_TOO_MANY_ATTEMPTS, 0)
          (?t4\<lparr>fatal_errors := [CC3XX_ERR_RNG_TOO_MANY_ATTEMPTS]\<rparr>))"
    by simp
  from m8 acc np m12 lz u12 m10 rej retry last show ?thesis by (intro conjI)
qed

text \<open>
  The claim as stated, with every draw for a power-of-two bound accepted, fails where
  the attempt limit is 1: the bound is 8, the draw succeeds and delivers \<open>0xFB\<close>, whose
  masked value 3 is below the bound, and the call returns
  \<open>CC3XX_ERR_RNG_TOO_MANY_ATTEMPTS\<close> with nothing stored through \<^verbatim>\<open>uint\<close>.
\<close>

theorem C5_counterexample:
  "cc3xx_lowlevel_rng_get_random (example_config 1 True False) 0 (le_bytes32 0) 4
       CC3XX_RNG_CRYPTOGRAPHICALLY_SECURE
       (example_state (example_config 1 True False) [0xFB, 0, 0, 0, 0x03, 0, 0, 0] 0)
     = Some (Returns (CC3XX_ERR_SUCCESS, [0xFB, 0, 0, 0])
         (example_state (example_config 1 True False) [0xFB, 0, 0, 0, 0x03, 0, 0, 0] 4))
   \<and> le_word (take 4 [0xFB, 0, 0, 0]) AND rng_uint_mask 8 = (3 :: u32)
   \<and> (3 :: u32) < 8
   \<and> cc3xx_lowlevel_rng_get_random_uint (example_config 1 True False) 8 0
         CC3XX_RNG_CRYPTOGRAPHICALLY_SECURE 0
         (example_state (example_config 1 True False) [0xFB, 0, 0, 0, 0x03, 0, 0, 0] 0)
       = Some (Returns (CC3XX_ERR_RNG_TOO_MANY_ATTEMPTS, 0)
           ((example_state (example_config 1 True False) [0xFB, 0, 0, 0, 0x03, 0, 0, 0] 4)
              \<lparr>fatal_errors := [CC3XX_ERR_RNG_TOO_MANY_ATTEMPTS]\<rparr>))"
  by code_simp

lemma word_succ_unat: "(a :: u32) < m \<Longrightarrow> unat (a + 1) = unat a + 1"
  by unat_arith

lemma rng_uint_loop_success_draws:
  "rng_uint_loop cfg bound mask32 quality uint_mem value_w attempts s
     = Some (Returns (CC3XX_ERR_SUCCESS, v) s')
   \<Longrightarrow> attempts < CC3XX_CONFIG_RNG_MAX_ATTEMPTS cfg
   \<Longrightarrow> unat attempts + rng_uint_draws cfg bound mask32 quality value_w attempts s
         < unat (CC3XX_CONFIG_RNG_MAX_ATTEMPTS cfg)"
proof (induction cfg bound mask32 quality uint_mem value_w attempts s rule: rng_uint_loop.induct)
  case (1 cfg bound mask32 quality uint_mem value_w attempts s)
  note run = "1.prems"(1) [unfolded rng_uint_loop.simps [of cfg bound mask32 quality uint_mem value_w attempts s]]
  note lt = "1.prems"(2)
  note d = rng_uint_draws.simps [of cfg bound mask32 quality value_w attempts s]
  show ?case
  proof (cases "cc3xx_lowlevel_rng_get_random cfg 0 (le_bytes32 value_w) 4 quality s")
    case None
    with run show ?thesis by simp
  next
    case (Some oc)
    show ?thesis
    proof (cases oc)
      case (Returns r s1)
      obtain err bytes where r: "r = (err, bytes)" by (cases r)
      show ?thesis
      proof (cases "err \<noteq> CC3XX_ERR_SUCCESS")
        case True
        with run Some Returns r show ?thesis by simp
      next
        case ok: False
        show ?thesis
        proof (cases "CC3XX_CONFIG_RNG_MAX_ATTEMPTS cfg \<le> attempts + 1")
          case True
          with run Some Returns r ok show ?thesis
            by (simp add: FATAL_ERR_def Let_def split: if_splits)
        next
          case lim: False
          then have lt': "attempts + 1 < CC3XX_CONFIG_RNG_MAX_ATTEMPTS cfg" by simp
          have suc: "unat (attempts + 1) = unat attempts + 1"
            using lt by (rule word_succ_unat)
          show ?thesis
          proof (cases "bound \<le> le_word (take 4 bytes) AND mask32")
            case True
            with run Some Returns r ok lim
            have "rng_uint_loop cfg bound mask32 quality uint_mem
              (le_word (take 4 bytes) AND mask32) (attempts + 1) s1
                    = Some (Returns (CC3XX_ERR_SUCCESS, v) s')"
              by simp
            from "1.IH" [OF Some Returns r [symmetric] _ lim True this lt'] ok
            have "unat (attempts + 1) + rng_uint_draws cfg bound mask32 quality
              (le_word (take 4 bytes) AND mask32) (attempts + 1) s1
                    < unat (CC3XX_CONFIG_RNG_MAX_ATTEMPTS cfg)"
              by simp
            moreover have "rng_uint_draws cfg bound mask32 quality value_w attempts s
                    = 1 + rng_uint_draws cfg bound mask32 quality
              (le_word (take 4 bytes) AND mask32) (attempts + 1) s1"
              using Some Returns r ok lim True by (simp add: d)
            ultimately show ?thesis using suc by simp
          next
            case False
            have "rng_uint_draws cfg bound mask32 quality value_w attempts s = 1"
              using Some Returns r ok lim False by (simp add: d)
            moreover have "unat (attempts + 1) < unat (CC3XX_CONFIG_RNG_MAX_ATTEMPTS cfg)"
              using lt' by (simp add: word_less_nat_alt)
            ultimately show ?thesis using suc by simp
          qed
        qed
      qed
    next
      case (AssertFailed s1)
      with run Some show ?thesis by simp
    next
      case (FatalHalt s1)
      with run Some show ?thesis by simp
    qed
  qed
qed

lemma rng_uint_loop_success_limit:
  "rng_uint_loop cfg bound mask32 quality uint_mem value_w attempts s
     = Some (Returns (CC3XX_ERR_SUCCESS, v) s')
   \<Longrightarrow> \<not> CC3XX_CONFIG_RNG_MAX_ATTEMPTS cfg \<le> attempts + 1"
  by (subst (asm) rng_uint_loop.simps)
     (simp add: FATAL_ERR_def Let_def split: option.splits outcome.splits prod.splits if_splits)

text \<open>
  Claim C10. The attempt counter is incremented and compared with
  \<open>CC3XX_CONFIG_RNG_MAX_ATTEMPTS\<close> before the drawn value is compared with the bound.
  So when a draw succeeds with the counter about to reach the limit, the loop takes
  the \<^verbatim>\<open>FATAL_ERR\<close> path whatever the bytes drawn: it records the error and returns
  \<open>CC3XX_ERR_RNG_TOO_MANY_ATTEMPTS\<close> with the out-parameter untouched (or halts, where
  \<^verbatim>\<open>FATAL_ERR\<close> halts). And a call that returns \<open>CC3XX_ERR_SUCCESS\<close> has made at most
  \<open>CC3XX_CONFIG_RNG_MAX_ATTEMPTS - 1\<close> draws.
\<close>

theorem C10_limit_draw_discarded:
  "(cc3xx_lowlevel_rng_get_random cfg 0 (le_bytes32 value_w) 4 quality s
        = Some (Returns (CC3XX_ERR_SUCCESS, bytes) s1)
      \<and> CC3XX_CONFIG_RNG_MAX_ATTEMPTS cfg \<le> attempts + 1 \<longrightarrow>
      rng_uint_loop cfg bound mask32 quality uint_mem value_w attempts s
        = (if FATAL_ERR_HALTS cfg
           then Some (FatalHalt (s1\<lparr>fatal_errors :=
                   fatal_errors s1 @ [CC3XX_ERR_RNG_TOO_MANY_ATTEMPTS]\<rparr>))
           else Some (Returns (CC3XX_ERR_RNG_TOO_MANY_ATTEMPTS, uint_mem)
                  (s1\<lparr>fatal_errors := fatal_errors s1 @ [CC3XX_ERR_RNG_TOO_MANY_ATTEMPTS]\<rparr>))))
   \<and> (cc3xx_lowlevel_rng_get_random_uint cfg bound uint_mem quality value_w s
         = Some (Returns (CC3XX_ERR_SUCCESS, v) s') \<longrightarrow>
       rng_uint_draws cfg bound (rng_uint_mask bound) quality value_w 0 s + 1
         \<le> unat (CC3XX_CONFIG_RNG_MAX_ATTEMPTS cfg))"
proof (intro conjI impI)
  assume "cc3xx_lowlevel_rng_get_random cfg 0 (le_bytes32 value_w) 4 quality s
        = Some (Returns (CC3XX_ERR_SUCCESS, bytes) s1)
      \<and> CC3XX_CONFIG_RNG_MAX_ATTEMPTS cfg \<le> attempts + 1"
  then show "rng_uint_loop cfg bound mask32 quality uint_mem value_w attempts s
        = (if FATAL_ERR_HALTS cfg
           then Some (FatalHalt (s1\<lparr>fatal_errors :=
                   fatal_errors s1 @ [CC3XX_ERR_RNG_TOO_MANY_ATTEMPTS]\<rparr>))
           else Some (Returns (CC3XX_ERR_RNG_TOO_MANY_ATTEMPTS, uint_mem)
                  (s1\<lparr>fatal_errors := fatal_errors s1 @ [CC3XX_ERR_RNG_TOO_MANY_ATTEMPTS]\<rparr>)))"
    by (simp only: rng_uint_loop_limit)
next
  assume "cc3xx_lowlevel_rng_get_random_uint cfg bound uint_mem quality value_w s
         = Some (Returns (CC3XX_ERR_SUCCESS, v) s')"
  then have run: "rng_uint_loop cfg bound (rng_uint_mask bound) quality uint_mem value_w 0 s
         = Some (Returns (CC3XX_ERR_SUCCESS, v) s')"
    by (simp add: cc3xx_lowlevel_rng_get_random_uint_def split: if_splits)
  from rng_uint_loop_success_limit [OF run]
  have "0 < CC3XX_CONFIG_RNG_MAX_ATTEMPTS cfg"
    by (auto simp: word_neq_0_conv [symmetric])
  from rng_uint_loop_success_draws [OF run this]
  show "rng_uint_draws cfg bound (rng_uint_mask bound) quality value_w 0 s + 1
         \<le> unat (CC3XX_CONFIG_RNG_MAX_ATTEMPTS cfg)"
    by simp
qed

lemma ex_draw_2:
  "cc3xx_lowlevel_rng_get_random (example_config 2 True False) 0 (le_bytes32 11) 4
     CC3XX_RNG_CRYPTOGRAPHICALLY_SECURE
     (example_state (example_config 2 True False) [0x03, 0, 0, 0, 0x05, 0, 0, 0] 0)
   = Some (Returns (CC3XX_ERR_SUCCESS, [0x03, 0, 0, 0])
       (example_state (example_config 2 True False) [0x03, 0, 0, 0, 0x05, 0, 0, 0] 4))"
  by code_simp

lemma ex_uint_10:
  "cc3xx_lowlevel_rng_get_random_uint (example_config 16 True False) 10 0
      CC3XX_RNG_CRYPTOGRAPHICALLY_SECURE 0
      (example_state (example_config 16 True False) [0xFB, 0, 0, 0, 0x03, 0, 0, 0] 0)
    = Some (Returns (CC3XX_ERR_SUCCESS, 3)
       (example_state (example_config 16 True False) [0xFB, 0, 0, 0, 0x03, 0, 0, 0] 8))"
  by code_simp

text \<open>
  An instance: the pool holds the words \<open>0xFB\<close> and \<open>0x03\<close>; with bound 10, the first
  is masked to 11 and rejected, the second is accepted.
\<close>

theorem C1_uint_below_bound_witness:
  "cc3xx_lowlevel_rng_get_random_uint (example_config 16 True False) 10 0
      CC3XX_RNG_CRYPTOGRAPHICALLY_SECURE 0
      (example_state (example_config 16 True False) [0xFB, 0, 0, 0, 0x03, 0, 0, 0] 0)
    = Some (Returns (CC3XX_ERR_SUCCESS, 3)
       (example_state (example_config 16 True False) [0xFB, 0, 0, 0, 0x03, 0, 0, 0] 8))
   \<and> (1 :: u32) \<le> 10 \<and> (3 :: u32) < 10"
proof -
  note run = ex_uint_10
  have b: "(1 :: u32) \<le> 10" by simp
  from C1_uint_below_bound [OF b run] run b show ?thesis by simp
qed

text \<open>
  An instance: with a limit of 2 and the counter at 1, a draw of 3 (below the bound
  10) is discarded; with a limit of 16, the successful call above made 2 draws.
\<close>

theorem C10_limit_draw_discarded_witness:
  "le_word (take 4 [0x03, 0, 0, 0]) AND rng_uint_mask 10 < (10 :: u32)
   \<and> rng_uint_loop (example_config 2 True False) 10 (rng_uint_mask 10)
        CC3XX_RNG_CRYPTOGRAPHICALLY_SECURE 0 11 1
        (example_state (example_config 2 True False) [0x03, 0, 0, 0, 0x05, 0, 0, 0] 0)
      = Some (Returns (CC3XX_ERR_RNG_TOO_MANY_ATTEMPTS, 0)
          ((example_state (example_config 2 True False) [0x03, 0, 0, 0, 0x05, 0, 0, 0] 4)
             \<lparr>fatal_errors := [CC3XX_ERR_RNG_TOO_MANY_ATTEMPTS]\<rparr>))
   \<and> rng_uint_draws (example_config 16 True False) 10 (rng_uint_mask 10)
        CC3XX_RNG_CRYPTOGRAPHICALLY_SECURE 0 0
        (example_state (example_config 16 True False) [0xFB, 0, 0, 0, 0x03, 0, 0, 0] 0) = 2
   \<and> (2 :: nat) + 1 \<le> unat (CC3XX_CONFIG_RNG_MAX_ATTEMPTS (example_config 16 True False))"
proof -
  let ?c2 = "example_config 2 True False"
  let ?c = "example_config 16 True False"
  have acc: "le_word (take 4 [0x03, 0, 0, 0]) AND rng_uint_mask 10 < (10 :: u32)"
    by code_simp
  have lim: "CC3XX_CONFIG_RNG_MAX_ATTEMPTS ?c2 \<le> 1 + 1"
    by code_simp
  have nohalt: "\<not> FATAL_ERR_HALTS ?c2"
    by (simp add: example_config_def)
  have log: "fatal_errors (example_state ?c2 [0x03, 0, 0, 0, 0x05, 0, 0, 0] 4) = []"
    by (simp add: example_state_def initial_state_def)
  have draws: "rng_uint_draws ?c 10 (rng_uint_mask 10) CC3XX_RNG_CRYPTOGRAPHICALLY_SECURE 0 0
        (example_state ?c [0xFB, 0, 0, 0, 0x03, 0, 0, 0] 0) = 2"
    by code_simp
  from C10_limit_draw_discarded [where cfg = ?c2
      and quality = CC3XX_RNG_CRYPTOGRAPHICALLY_SECURE and value_w = 11
      and s = "example_state ?c2 [0x03, 0, 0, 0, 0x05, 0, 0, 0] 0"
      and bytes = "[0x03, 0, 0, 0]"
      and ?s1.0 = "example_state ?c2 [0x03, 0, 0, 0, 0x05, 0, 0, 0] 4"
      and attempts = 1 and bound = 10 and ?mask32.0 = "rng_uint_mask 10" and uint_mem = 0,
      THEN conjunct1, rule_format] ex_draw_2 lim
  have "rng_uint_loop ?c2 10 (rng_uint_mask 10) CC3XX_RNG_CRYPTOGRAPHICALLY_SECURE 0 11 1
        (example_state ?c2 [0x03, 0, 0, 0, 0x05, 0, 0, 0] 0)
      = (if FATAL_ERR_HALTS ?c2
         then Some (FatalHalt ((example_state ?c2 [0x03, 0, 0, 0, 0x05, 0, 0, 0] 4)
                \<lparr>fatal_errors := fatal_errors (example_state ?c2 [0x03, 0, 0, 0, 0x05, 0, 0, 0] 4)
                     @ [CC3XX_ERR_RNG_TOO_MANY_ATTEMPTS]\<rparr>))
         else Some (Returns (CC3XX_ERR_RNG_TOO_MANY_ATTEMPTS, 0)
                ((example_state ?c2 [0x03, 0, 0, 0, 0x05, 0, 0, 0] 4)
                \<lparr>fatal_errors := fatal_errors (example_state ?c2 [0x03, 0, 0, 0, 0x05, 0, 0, 0] 4)
                     @ [CC3XX_ERR_RNG_TOO_MANY_ATTEMPTS]\<rparr>)))"
    by blast
  with nohalt log
  have one: "rng_uint_loop ?c2 10 (rng_uint_mask 10) CC3XX_RNG_CRYPTOGRAPHICALLY_SECURE 0 11 1
        (example_state ?c2 [0x03, 0, 0, 0, 0x05, 0, 0, 0] 0)
      = Some (Returns (CC3XX_ERR_RNG_TOO_MANY_ATTEMPTS, 0)
          ((example_state ?c2 [0x03, 0, 0, 0, 0x05, 0, 0, 0] 4)
             \<lparr>fatal_errors := [CC3XX_ERR_RNG_TOO_MANY_ATTEMPTS]\<rparr>))"
    by simp
  from C10_limit_draw_discarded [where cfg = ?c
      and quality = CC3XX_RNG_CRYPTOGRAPHICALLY_SECURE and bound = 10 and uint_mem = 0
      and value_w = 0 and v = 3
      and s = "example_state ?c [0xFB, 0, 0, 0, 0x03, 0, 0, 0] 0"
      and s' = "example_state ?c [0xFB, 0, 0, 0, 0x03, 0, 0, 0] 8",
      THEN conjunct2, rule_format, OF ex_uint_10] draws
  have two: "(2 :: nat) + 1 \<le> unat (CC3XX_CONFIG_RNG_MAX_ATTEMPTS ?c)"
    by simp
  from acc one draws two show ?thesis by (intro conjI)
qed

subsection \<open>The hardware adapter read\<close>

lemma of_nat_less_word:
  "n < unat (m :: u32) \<Longrightarrow> (of_nat n :: u32) < m"
proof -
  assume a: "n < unat m"
  have "unat m < 2 ^ 32" using unsigned_less [of m] by simp
  with a have "unat (of_nat n :: u32) = n" by (simp add: unat_of_nat)
  with a show ?thesis by (simp add: word_less_nat_alt)
qed

lemma of_nat_neq_word:
  "n < unat (m :: u32) \<Longrightarrow> (of_nat n :: u32) \<noteq> m"
  using of_nat_less_word [of n m] by auto

lemma trng_poll_busy:
  "\<forall>(r1, r2) \<in> set polls. r2 AND 0x1 = 0
   \<Longrightarrow> n + failed_polls polls < unat (CC3XX_CONFIG_RNG_MAX_ATTEMPTS cfg)
   \<Longrightarrow> trng_poll cfg (of_nat n) (poll_reads polls @ rs) ws
       = trng_poll cfg (of_nat (n + failed_polls polls)) rs (ws @ poll_writes polls)"
proof (induction polls arbitrary: n ws)
  case Nil
  show ?case by (simp add: poll_reads_def failed_polls_def poll_writes_def)
next
  case (Cons p polls)
  obtain r1 r2 where p: "p = (r1, r2)" by (cases p)
  from Cons.prems(1) p have r2: "r2 AND 0x1 = 0"
    and rest: "\<forall>(r1, r2) \<in> set polls. r2 AND 0x1 = 0"
    by auto
  show ?case
  proof (cases "r1 AND 0xE \<noteq> 0")
    case True
    then have f: "failed_polls (p # polls) = Suc (failed_polls polls)"
      and w: "poll_writes (p # polls)
              = [(RST_BITS_COUNTER, 1), (RNG_ICR, 0x3F)] @ poll_writes polls"
      by (simp_all add: failed_polls_def poll_writes_def p)
    from Cons.prems(2) f have lt: "Suc n + failed_polls polls < unat (CC3XX_CONFIG_RNG_MAX_ATTEMPTS cfg)"
      by simp
    then have "(of_nat (Suc n) :: u32) < CC3XX_CONFIG_RNG_MAX_ATTEMPTS cfg"
      by (intro of_nat_less_word) simp
    moreover have suc: "(of_nat (Suc n) :: u32) = of_nat n + 1"
      by simp
    ultimately have "(of_nat n + 1 :: u32) < CC3XX_CONFIG_RNG_MAX_ATTEMPTS cfg"
      by (simp only:)
    then have "trng_poll cfg (of_nat n) (poll_reads (p # polls) @ rs) ws
          = trng_poll cfg (of_nat n + 1) (poll_reads polls @ rs)
              (ws @ [(RST_BITS_COUNTER, 1), (RNG_ICR, 0x3F)])"
      using True r2 by (simp add: poll_reads_def p)
    also have "\<dots> = trng_poll cfg (of_nat (Suc n)) (poll_reads polls @ rs)
              (ws @ [(RST_BITS_COUNTER, 1), (RNG_ICR, 0x3F)])"
      by (simp only: suc)
    also have "\<dots> = trng_poll cfg (of_nat (Suc n + failed_polls polls)) rs
              ((ws @ [(RST_BITS_COUNTER, 1), (RNG_ICR, 0x3F)]) @ poll_writes polls)"
      by (rule Cons.IH [OF rest lt])
    finally show ?thesis by (simp add: f w)
  next
    case False
    then have f: "failed_polls (p # polls) = failed_polls polls"
      and w: "poll_writes (p # polls) = poll_writes polls"
      by (simp_all add: failed_polls_def poll_writes_def p)
    from Cons.prems(2) f have lt: "n + failed_polls polls < unat (CC3XX_CONFIG_RNG_MAX_ATTEMPTS cfg)"
      by simp
    then have "(of_nat n :: u32) < CC3XX_CONFIG_RNG_MAX_ATTEMPTS cfg"
      by (intro of_nat_less_word) simp
    then have "trng_poll cfg (of_nat n) (poll_reads (p # polls) @ rs) ws
          = trng_poll cfg (of_nat n) (poll_reads polls @ rs) ws"
      using False r2 by (simp add: poll_reads_def p)
    also have "\<dots> = trng_poll cfg (of_nat (n + failed_polls polls)) rs (ws @ poll_writes polls)"
      by (rule Cons.IH [OF rest lt])
    finally show ?thesis by (simp add: f w)
  qed
qed


lemma trng_poll_exhausted:
  assumes busy: "\<forall>(r1, r2) \<in> set polls. r2 AND 0x1 = 0"
    and cnt: "failed_polls polls + 1 = unat (CC3XX_CONFIG_RNG_MAX_ATTEMPTS cfg)"
    and f: "f AND 0xE \<noteq> 0"
  shows "trng_poll cfg 0 (poll_reads polls @ f # r # rs) ws
       = Some (CC3XX_CONFIG_RNG_MAX_ATTEMPTS cfg, rs,
               ws @ poll_writes polls @ [(RST_BITS_COUNTER, 1), (RNG_ICR, 0x3F)])"
proof -
  have "trng_poll cfg (of_nat 0) (poll_reads polls @ f # r # rs) ws
       = trng_poll cfg (of_nat (0 + failed_polls polls)) (f # r # rs) (ws @ poll_writes polls)"
    using busy cnt by (intro trng_poll_busy) simp_all
  moreover have "(of_nat (failed_polls polls) :: u32) + 1 = CC3XX_CONFIG_RNG_MAX_ATTEMPTS cfg"
  proof -
    have "(of_nat (failed_polls polls) :: u32) + 1 = of_nat (failed_polls polls + 1)"
      by simp
    also have "\<dots> = of_nat (unat (CC3XX_CONFIG_RNG_MAX_ATTEMPTS cfg))"
      by (simp only: cnt)
    finally show ?thesis by simp
  qed
  ultimately show ?thesis using f by simp
qed

lemma trng_poll_valid:
  assumes busy: "\<forall>(r1, r2) \<in> set polls. r2 AND 0x1 = 0"
    and valid: "g2 AND 0x1 \<noteq> 0"
    and cnt: "failed_polls (polls @ [(g1, g2)]) < unat (CC3XX_CONFIG_RNG_MAX_ATTEMPTS cfg)"
  shows "trng_poll cfg 0 (poll_reads (polls @ [(g1, g2)]) @ rs) ws
       = Some (of_nat (failed_polls (polls @ [(g1, g2)])), rs,
               ws @ poll_writes (polls @ [(g1, g2)]))"
proof -
  have le: "failed_polls polls \<le> failed_polls (polls @ [(g1, g2)])"
    by (simp add: failed_polls_def)
  have "trng_poll cfg (of_nat 0) (poll_reads polls @ g1 # g2 # rs) ws
       = trng_poll cfg (of_nat (0 + failed_polls polls)) (g1 # g2 # rs) (ws @ poll_writes polls)"
    using busy cnt le by (intro trng_poll_busy) simp_all
  moreover have "poll_reads (polls @ [(g1, g2)]) @ rs = poll_reads polls @ g1 # g2 # rs"
    by (simp add: poll_reads_def)
  ultimately have start: "trng_poll cfg 0 (poll_reads (polls @ [(g1, g2)]) @ rs) ws
       = trng_poll cfg (of_nat (failed_polls polls)) (g1 # g2 # rs) (ws @ poll_writes polls)"
    by simp
  show ?thesis
  proof (cases "g1 AND 0xE \<noteq> 0")
    case True
    then have "failed_polls (polls @ [(g1, g2)]) = Suc (failed_polls polls)"
      and "poll_writes (polls @ [(g1, g2)])
             = poll_writes polls @ [(RST_BITS_COUNTER, 1), (RNG_ICR, 0x3F)]"
      by (simp_all add: failed_polls_def poll_writes_def)
    moreover have "(of_nat (failed_polls polls) :: u32) + 1 = of_nat (Suc (failed_polls polls))"
      by simp
    ultimately show ?thesis using True valid start
      by (simp del: of_nat_Suc)
  next
    case False
    then have "failed_polls (polls @ [(g1, g2)]) = failed_polls polls"
      and "poll_writes (polls @ [(g1, g2)]) = poll_writes polls"
      by (simp_all add: failed_polls_def poll_writes_def)
    then show ?thesis using False valid start by simp
  qed
qed

lemma FATAL_ERR_eq:
  "FATAL_ERR cfg err s =
     (if FATAL_ERR_HALTS cfg then FatalHalt (s\<lparr>fatal_errors := fatal_errors s @ [err]\<rparr>)
      else Returns () (s\<lparr>fatal_errors := fatal_errors s @ [err]\<rparr>))"
  by (simp add: FATAL_ERR_def Let_def)

text \<open>
  Claim C4, for \<^verbatim>\<open>trng_get_random\<close> called with the word count of the entropy
  register. First part: the loop keeps polling while the valid bit is clear; when the
  polls so far hold \<open>CC3XX_CONFIG_RNG_MAX_ATTEMPTS - 1\<close> failed health tests and the next
  poll fails too (in particular on \<open>CC3XX_CONFIG_RNG_MAX_ATTEMPTS\<close> failures in a row),
  the fatal path is taken exactly once: one entry is added to the log of \<^verbatim>\<open>FATAL_ERR\<close>,
  no entropy register is read, and the call halts or returns
  \<open>CC3XX_ERR_RNG_TOO_MANY_ATTEMPTS\<close> with the caller's buffer as it was. Second part:
  when the polls up to and including the first one that shows the valid bit hold fewer
  than \<open>CC3XX_CONFIG_RNG_MAX_ATTEMPTS\<close> failed health tests, the call returns
  \<open>CC3XX_ERR_SUCCESS\<close> and the buffer holds the words read from the entropy register.
\<close>

theorem C4_trng_get_random_attempts:
  "((\<forall>(r1, r2) \<in> set polls. r2 AND 0x1 = 0)
      \<and> failed_polls polls + 1 = unat (CC3XX_CONFIG_RNG_MAX_ATTEMPTS cfg)
      \<and> f AND 0xE \<noteq> 0
      \<and> rng_isr_reads s = poll_reads polls @ f # r # rest \<longrightarrow>
      trng_get_random cfg buf (EHR_DATA_WORDS cfg) s
        = (if FATAL_ERR_HALTS cfg
           then Some (FatalHalt
             (s\<lparr>rng_isr_reads := rest,
                reg_writes := reg_writes s @ poll_writes polls
                  @ [(RST_BITS_COUNTER, 1), (RNG_ICR, 0x3F),
                     (RND_SOURCE_ENABLE, 0), (RNG_CLK_ENABLE, 0)],
                fatal_errors := fatal_errors s @ [CC3XX_ERR_RNG_TOO_MANY_ATTEMPTS]\<rparr>))
           else Some (Returns (CC3XX_ERR_RNG_TOO_MANY_ATTEMPTS, buf)
             (s\<lparr>rng_isr_reads := rest,
                reg_writes := reg_writes s @ poll_writes polls
                  @ [(RST_BITS_COUNTER, 1), (RNG_ICR, 0x3F),
                     (RND_SOURCE_ENABLE, 0), (RNG_CLK_ENABLE, 0)],
                fatal_errors := fatal_errors s @ [CC3XX_ERR_RNG_TOO_MANY_ATTEMPTS]\<rparr>))))
   \<and> ((\<forall>(r1, r2) \<in> set polls. r2 AND 0x1 = 0)
      \<and> g2 AND 0x1 \<noteq> 0
      \<and> failed_polls (polls @ [(g1, g2)]) < unat (CC3XX_CONFIG_RNG_MAX_ATTEMPTS cfg)
      \<and> rng_isr_reads s = poll_reads (polls @ [(g1, g2)]) @ rest
      \<and> EHR_DATA_WORDS cfg \<le> length (ehr_data_reads s) \<longrightarrow>
      trng_get_random cfg buf (EHR_DATA_WORDS cfg) s
        = Some (Returns
            (CC3XX_ERR_SUCCESS,
             concat (map le_bytes32 (take (EHR_DATA_WORDS cfg) (ehr_data_reads s)))
               @ drop (4 * EHR_DATA_WORDS cfg) buf)
            (s\<lparr>rng_isr_reads := rest,
               reg_writes := reg_writes s @ poll_writes (polls @ [(g1, g2)])
                 @ [(RST_BITS_COUNTER, 1), (RNG_ICR, 0xFFFFFFFF)],
               ehr_data_reads := drop (EHR_DATA_WORDS cfg) (ehr_data_reads s)\<rparr>)))"
proof (intro conjI impI)
  assume a: "(\<forall>(r1, r2) \<in> set polls. r2 AND 0x1 = 0)
      \<and> failed_polls polls + 1 = unat (CC3XX_CONFIG_RNG_MAX_ATTEMPTS cfg)
      \<and> f AND 0xE \<noteq> 0
      \<and> rng_isr_reads s = poll_reads polls @ f # r # rest"
  then have "trng_poll cfg 0 (rng_isr_reads s) (reg_writes s)
       = Some (CC3XX_CONFIG_RNG_MAX_ATTEMPTS cfg, rest,
               reg_writes s @ poll_writes polls @ [(RST_BITS_COUNTER, 1), (RNG_ICR, 0x3F)])"
    by (simp add: trng_poll_exhausted)
  then show "trng_get_random cfg buf (EHR_DATA_WORDS cfg) s
        = (if FATAL_ERR_HALTS cfg
           then Some (FatalHalt
             (s\<lparr>rng_isr_reads := rest,
                reg_writes := reg_writes s @ poll_writes polls
                  @ [(RST_BITS_COUNTER, 1), (RNG_ICR, 0x3F),
                     (RND_SOURCE_ENABLE, 0), (RNG_CLK_ENABLE, 0)],
                fatal_errors := fatal_errors s @ [CC3XX_ERR_RNG_TOO_MANY_ATTEMPTS]\<rparr>))
           else Some (Returns (CC3XX_ERR_RNG_TOO_MANY_ATTEMPTS, buf)
             (s\<lparr>rng_isr_reads := rest,
                reg_writes := reg_writes s @ poll_writes polls
                  @ [(RST_BITS_COUNTER, 1), (RNG_ICR, 0x3F),
                     (RND_SOURCE_ENABLE, 0), (RNG_CLK_ENABLE, 0)],
                fatal_errors := fatal_errors s @ [CC3XX_ERR_RNG_TOO_MANY_ATTEMPTS]\<rparr>)))"
    by (simp add: trng_get_random_def trng_finish_def reg_write_def FATAL_ERR_eq)
next
  assume a: "(\<forall>(r1, r2) \<in> set polls. r2 AND 0x1 = 0)
      \<and> g2 AND 0x1 \<noteq> 0
      \<and> failed_polls (polls @ [(g1, g2)]) < unat (CC3XX_CONFIG_RNG_MAX_ATTEMPTS cfg)
      \<and> rng_isr_reads s = poll_reads (polls @ [(g1, g2)]) @ rest
      \<and> EHR_DATA_WORDS cfg \<le> length (ehr_data_reads s)"
  then have "trng_poll cfg 0 (rng_isr_reads s) (reg_writes s)
       = Some (of_nat (failed_polls (polls @ [(g1, g2)])), rest,
               reg_writes s @ poll_writes (polls @ [(g1, g2)]))"
    by (simp add: trng_poll_valid)
  moreover have "(of_nat (failed_polls (polls @ [(g1, g2)])) :: u32)
                   \<noteq> CC3XX_CONFIG_RNG_MAX_ATTEMPTS cfg"
    using a by (intro of_nat_neq_word) simp
  ultimately show "trng_get_random cfg buf (EHR_DATA_WORDS cfg) s
        = Some (Returns
            (CC3XX_ERR_SUCCESS,
             concat (map le_bytes32 (take (EHR_DATA_WORDS cfg) (ehr_data_reads s)))
               @ drop (4 * EHR_DATA_WORDS cfg) buf)
            (s\<lparr>rng_isr_reads := rest,
               reg_writes := reg_writes s @ poll_writes (polls @ [(g1, g2)])
                 @ [(RST_BITS_COUNTER, 1), (RNG_ICR, 0xFFFFFFFF)],
               ehr_data_reads := drop (EHR_DATA_WORDS cfg) (ehr_data_reads s)\<rparr>))"
    using a by (simp add: trng_get_random_def reg_write_def)
qed


text \<open>
  An instance with a limit of 3: three failures in a row end in the fatal path; two
  failures and then a valid poll return the two entropy words.
\<close>

theorem C4_trng_get_random_attempts_witness:
  "trng_get_random (example_config 3 True False) [9, 9, 9, 9, 9, 9, 9, 9] 2
      (initial_state (example_config 3 True False) [2, 0, 2, 0, 2, 0] []
         [0x04030201, 0x08070605])
     = Some (Returns (CC3XX_ERR_RNG_TOO_MANY_ATTEMPTS, [9, 9, 9, 9, 9, 9, 9, 9])
         ((initial_state (example_config 3 True False) [2, 0, 2, 0, 2, 0] []
             [0x04030201, 0x08070605])
           \<lparr>rng_isr_reads := [],
            reg_writes := [(RST_BITS_COUNTER, 1), (RNG_ICR, 0x3F),
                           (RST_BITS_COUNTER, 1), (RNG_ICR, 0x3F),
                           (RST_BITS_COUNTER, 1), (RNG_ICR, 0x3F),
                           (RND_SOURCE_ENABLE, 0), (RNG_CLK_ENABLE, 0)],
            fatal_errors := [CC3XX_ERR_RNG_TOO_MANY_ATTEMPTS]\<rparr>))
   \<and> trng_get_random (example_config 3 True False) [9, 9, 9, 9, 9, 9, 9, 9] 2
      (initial_state (example_config 3 True False) [2, 0, 2, 0, 0, 1] []
         [0x04030201, 0x08070605])
     = Some (Returns (CC3XX_ERR_SUCCESS, [1, 2, 3, 4, 5, 6, 7, 8])
         ((initial_state (example_config 3 True False) [2, 0, 2, 0, 0, 1] []
             [0x04030201, 0x08070605])
           \<lparr>rng_isr_reads := [],
            reg_writes := [(RST_BITS_COUNTER, 1), (RNG_ICR, 0x3F),
                           (RST_BITS_COUNTER, 1), (RNG_ICR, 0x3F),
                           (RST_BITS_COUNTER, 1), (RNG_ICR, 0xFFFFFFFF)],
            ehr_data_reads := []\<rparr>))"
proof -
  have cfg: "CC3XX_CONFIG_RNG_MAX_ATTEMPTS (example_config 3 True False) = 3"
    "EHR_DATA_WORDS (example_config 3 True False) = 2"
    "FATAL_ERR_HALTS (example_config 3 True False) = False"
    by (simp_all add: example_config_def)
  have bytes: "le_bytes32 0x04030201 = [1, 2, 3, 4]" "le_bytes32 0x08070605 = [5, 6, 7, 8]"
    by code_simp+
  have one: "trng_get_random (example_config 3 True False) [9, 9, 9, 9, 9, 9, 9, 9] 2
      (initial_state (example_config 3 True False) [2, 0, 2, 0, 2, 0] []
         [0x04030201, 0x08070605])
     = Some (Returns (CC3XX_ERR_RNG_TOO_MANY_ATTEMPTS, [9, 9, 9, 9, 9, 9, 9, 9])
         ((initial_state (example_config 3 True False) [2, 0, 2, 0, 2, 0] []
             [0x04030201, 0x08070605])
           \<lparr>rng_isr_reads := [],
            reg_writes := [(RST_BITS_COUNTER, 1), (RNG_ICR, 0x3F),
                           (RST_BITS_COUNTER, 1), (RNG_ICR, 0x3F),
                           (RST_BITS_COUNTER, 1), (RNG_ICR, 0x3F),
                           (RND_SOURCE_ENABLE, 0), (RNG_CLK_ENABLE, 0)],
            fatal_errors := [CC3XX_ERR_RNG_TOO_MANY_ATTEMPTS]\<rparr>))"
    using C4_trng_get_random_attempts [where cfg = "example_config 3 True False"
        and polls = "[(2, 0), (2, 0)]" and f = 2 and r = 0 and rest = "[]"
        and buf = "[9, 9, 9, 9, 9, 9, 9, 9]"
        and s = "initial_state (example_config 3 True False) [2, 0, 2, 0, 2, 0] []
                   [0x04030201, 0x08070605]", THEN conjunct1]
    by (simp add: cfg poll_reads_def failed_polls_def poll_writes_def initial_state_def)
  have two: "trng_get_random (example_config 3 True False) [9, 9, 9, 9, 9, 9, 9, 9] 2
      (initial_state (example_config 3 True False) [2, 0, 2, 0, 0, 1] []
         [0x04030201, 0x08070605])
     = Some (Returns (CC3XX_ERR_SUCCESS, [1, 2, 3, 4, 5, 6, 7, 8])
         ((initial_state (example_config 3 True False) [2, 0, 2, 0, 0, 1] []
             [0x04030201, 0x08070605])
           \<lparr>rng_isr_reads := [],
            reg_writes := [(RST_BITS_COUNTER, 1), (RNG_ICR, 0x3F),
                           (RST_BITS_COUNTER, 1), (RNG_ICR, 0x3F),
                           (RST_BITS_COUNTER, 1), (RNG_ICR, 0xFFFFFFFF)],
            ehr_data_reads := []\<rparr>))"
    using C4_trng_get_random_attempts [where cfg = "example_config 3 True False"
        and polls = "[(2, 0), (2, 0)]" and ?g1.0 = 0 and ?g2.0 = 1 and rest = "[]"
        and buf = "[9, 9, 9, 9, 9, 9, 9, 9]"
        and s = "initial_state (example_config 3 True False) [2, 0, 2, 0, 0, 1] []
                   [0x04030201, 0x08070605]", THEN conjunct2]
    by (simp add: cfg bytes poll_reads_def failed_polls_def poll_writes_def initial_state_def)
  from one two show ?thesis by (rule conjI)
qed

subsection \<open>The fast generator is seeded once\<close>

lemma xorshift_seeded:
  "lfsr_seed_done s \<Longrightarrow>
   xorshift_plus_128_lfsr cfg s
     = Some (Returns (fst (xorshift_step (lfsr_state s)))
               (s\<lparr>lfsr_state := snd (xorshift_step (lfsr_state s))\<rparr>))"
  by (simp add: xorshift_plus_128_lfsr_def split: prod.splits)

lemma xorshift_sets_flag:
  "xorshift_plus_128_lfsr cfg s = Some (Returns r s') \<Longrightarrow> lfsr_seed_done s'"
  by (cases "lfsr_seed_done s")
     (auto simp: xorshift_plus_128_lfsr_def
           split: option.splits outcome.splits prod.splits if_splits)

lemma lfsr_get_random_seeded:
  "lfsr_seed_done s \<Longrightarrow>
   lfsr_get_random cfg buf 2 s
     = Some (Returns (CC3XX_ERR_SUCCESS,
                      le_bytes64 (fst (xorshift_step (lfsr_state s))) @ drop 8 buf)
               (s\<lparr>lfsr_state := snd (xorshift_step (lfsr_state s))\<rparr>))"
  by (simp add: lfsr_get_random_def xorshift_seeded)

lemma rng_copy_lfsr_frame:
  "rng_copy LFSR_POOL m al dst pos len s = (dst', pos', len', s')
   \<Longrightarrow> lfsr_seed_done s' = lfsr_seed_done s \<and> cs_side s' = cs_side s"
  by (auto simp: rng_copy_def Let_def cs_side_def)

lemma rng_fill_loop_fast_seeded:
  assumes "rng_fill_loop p m fn al dst pos len s = Some oc"
  shows "p = LFSR_POOL \<and> m = lfsr_buf_size \<and> fn = lfsr_get_random cfg \<and> lfsr_seed_done s
   \<longrightarrow> lfsr_seed_done (outcome_state oc) \<and> cs_side (outcome_state oc) = cs_side s"
  using assms
proof (induction p m fn al dst pos len s oc
       rule: rng_fill_loop.raw_induct [rotated 1, consumes 1, case_names 1])
  case (1 loop p m fn al dst pos len s oc)
  show ?case
  proof (intro impI)
    assume a: "p = LFSR_POOL \<and> m = lfsr_buf_size \<and> fn = lfsr_get_random cfg \<and> lfsr_seed_done s"
    show "lfsr_seed_done (outcome_state oc) \<and> cs_side (outcome_state oc) = cs_side s"
    proof (cases "len = 0")
      case True
      with "1.hyps" a show ?thesis by auto
    next
      case nz: False
      show ?thesis
      proof (cases "used_idx p s = m")
        case True
        let ?s1 = "s\<lparr>lfsr_state := snd (xorshift_step (lfsr_state s))\<rparr>"
        let ?b = "le_bytes64 (fst (xorshift_step (lfsr_state s))) @ drop 8 (random_buf p s)"
        let ?s2 = "set_used_idx p 0 (set_random_buf p ?b ?s1)"
        obtain dst' pos' len' s3 where c: "rng_copy p m al dst pos len ?s2 = (dst', pos', len', s3)"
          by (cases "rng_copy p m al dst pos len ?s2") auto
        from "1.hyps" nz True a c
        have run: "loop p m fn al dst' pos' len' s3 = Some oc"
          by (simp add: lfsr_get_random_seeded lfsr_buf_size_def)
        from c a have "lfsr_seed_done s3 = lfsr_seed_done ?s2 \<and> cs_side s3 = cs_side ?s2"
          by (intro rng_copy_lfsr_frame [of m al dst pos len ?s2 dst' pos' len' s3]) simp
        with a have s3: "lfsr_seed_done s3" "cs_side s3 = cs_side s"
          by (simp_all add: cs_side_def)
        from "1.IH" [OF run] a s3 show ?thesis by simp
      next
        case False
        obtain dst' pos' len' s3 where c: "rng_copy p m al dst pos len s = (dst', pos', len', s3)"
          by (cases "rng_copy p m al dst pos len s") auto
        from "1.hyps" nz False c
        have run: "loop p m fn al dst' pos' len' s3 = Some oc"
          by simp
        from c a have "lfsr_seed_done s3 = lfsr_seed_done s \<and> cs_side s3 = cs_side s"
          by (intro rng_copy_lfsr_frame [of m al dst pos len s dst' pos' len' s3]) simp
        with a have s3: "lfsr_seed_done s3" "cs_side s3 = cs_side s"
          by simp_all
        from "1.IH" [OF run] a s3 show ?thesis by simp
      qed
    qed
  qed
qed

lemma get_random_fast_seeded:
  assumes "cc3xx_lowlevel_rng_get_random cfg buf dst len CC3XX_RNG_FAST s = Some oc"
    and "lfsr_seed_done s"
  shows "lfsr_seed_done (outcome_state oc) \<and> cs_side (outcome_state oc) = cs_side s"
proof -
  let ?al = "buf AND 0x3 = 0 \<and> len mod 4 = 0"
  let ?s1 = "if ?al then set_used_idx LFSR_POOL
                 (unat (round_up (of_nat (used_idx LFSR_POOL s)) 4)) s else s"
  have s1: "lfsr_seed_done ?s1" "cs_side ?s1 = cs_side s"
    using assms(2) by (simp_all add: cs_side_def)
  from assms(1) obtain oc' where
    loop: "rng_fill_loop LFSR_POOL lfsr_buf_size (lfsr_get_random cfg) ?al dst 0 len ?s1 = Some oc'"
    and oc: "outcome_state oc = outcome_state oc'"
    by (auto simp: cc3xx_lowlevel_rng_get_random_def rng_get_random_from_def Let_def
             split: option.splits outcome.splits prod.splits if_splits)
  from rng_fill_loop_fast_seeded [OF loop, of cfg] s1 oc show ?thesis by simp
qed


lemma rng_uint_loop_fast_seeded:
  "rng_uint_loop cfg bound mask32 quality uint_mem value_w attempts s = Some oc
   \<Longrightarrow> quality = CC3XX_RNG_FAST \<Longrightarrow> lfsr_seed_done s
   \<Longrightarrow> lfsr_seed_done (outcome_state oc) \<and> cs_side (outcome_state oc) = cs_side s"
proof (induction cfg bound mask32 quality uint_mem value_w attempts s rule: rng_uint_loop.induct)
  case (1 cfg bound mask32 quality uint_mem value_w attempts s)
  note run = "1.prems"(1) [unfolded rng_uint_loop.simps [of cfg bound mask32 quality uint_mem value_w attempts s]]
  note q = "1.prems"(2)
  note seeded = "1.prems"(3)
  show ?case
  proof (cases "cc3xx_lowlevel_rng_get_random cfg 0 (le_bytes32 value_w) 4 quality s")
    case None
    with run show ?thesis by simp
  next
    case (Some oc1)
    from get_random_fast_seeded [OF Some [unfolded q] seeded]
    have inv1: "lfsr_seed_done (outcome_state oc1)" "cs_side (outcome_state oc1) = cs_side s"
      by simp_all
    show ?thesis
    proof (cases oc1)
      case (Returns r s1)
      obtain err bytes where r: "r = (err, bytes)" by (cases r)
      from inv1 Returns have s1: "lfsr_seed_done s1" "cs_side s1 = cs_side s" by simp_all
      show ?thesis
      proof (cases "err \<noteq> CC3XX_ERR_SUCCESS")
        case True
        with run Some Returns r s1 show ?thesis by auto
      next
        case ok: False
        show ?thesis
        proof (cases "CC3XX_CONFIG_RNG_MAX_ATTEMPTS cfg \<le> attempts + 1")
          case True
          with run Some Returns r ok s1 show ?thesis
            by (auto simp: FATAL_ERR_def Let_def cs_side_def split: if_splits)
        next
          case lim: False
          show ?thesis
          proof (cases "bound \<le> le_word (take 4 bytes) AND mask32")
            case True
            with run Some Returns r ok lim
            have "rng_uint_loop cfg bound mask32 quality uint_mem
              (le_word (take 4 bytes) AND mask32) (attempts + 1) s1 = Some oc"
              by simp
            from "1.IH" [OF Some Returns r [symmetric] _ lim True this q s1(1)] ok s1
            show ?thesis by simp
          next
            case False
            with run Some Returns r ok lim s1 show ?thesis by auto
          qed
        qed
      qed
    next
      case (AssertFailed s1)
      with run Some inv1 show ?thesis by auto
    next
      case (FatalHalt s1)
      with run Some inv1 show ?thesis by auto
    qed
  qed
qed

lemma get_random_uint_fast_seeded:
  assumes "cc3xx_lowlevel_rng_get_random_uint cfg bound uint_mem CC3XX_RNG_FAST value_w s = Some oc"
    and "lfsr_seed_done s"
  shows "lfsr_seed_done (outcome_state oc) \<and> cs_side (outcome_state oc) = cs_side s"
proof (cases "\<not> NDEBUG cfg \<and> bound = 0")
  case True
  with assms show ?thesis by (auto simp: cc3xx_lowlevel_rng_get_random_uint_def)
next
  case False
  with assms(1) have "rng_uint_loop cfg bound (rng_uint_mask bound) CC3XX_RNG_FAST uint_mem value_w 0 s
                        = Some oc"
    by (simp add: cc3xx_lowlevel_rng_get_random_uint_def)
  from rng_uint_loop_fast_seeded [OF this refl assms(2)] show ?thesis .
qed

lemma fisher_yates_loop_fast_seeded:
  "fisher_yates_loop cfg permutation_buf len quality value_at swap_idx idx s = Some oc
   \<Longrightarrow> quality = CC3XX_RNG_FAST \<Longrightarrow> lfsr_seed_done s
   \<Longrightarrow> lfsr_seed_done (outcome_state oc) \<and> cs_side (outcome_state oc) = cs_side s"
proof (induction cfg permutation_buf len quality value_at swap_idx idx s rule: fisher_yates_loop.induct)
  case (1 cfg permutation_buf len quality value_at swap_idx idx s)
  note run = "1.prems"(1) [unfolded fisher_yates_loop.simps
                             [of cfg permutation_buf len quality value_at swap_idx idx s]]
  note q = "1.prems"(2)
  note seeded = "1.prems"(3)
  show ?case
  proof (cases "idx \<le> len - 1")
    case False
    with run seeded show ?thesis by auto
  next
    case inloop: True
    show ?thesis
    proof (cases "cc3xx_lowlevel_rng_get_random_uint cfg (of_nat (len - idx)) swap_idx quality
                     (value_at idx) s")
      case None
      with run inloop show ?thesis by simp
    next
      case (Some oc1)
      from get_random_uint_fast_seeded [OF Some [unfolded q] seeded]
      have inv1: "lfsr_seed_done (outcome_state oc1)" "cs_side (outcome_state oc1) = cs_side s"
        by simp_all
      show ?thesis
      proof (cases oc1)
        case (Returns r s1)
        obtain err swap_idx1 where r: "r = (err, swap_idx1)" by (cases r)
        from inv1 Returns have s1: "lfsr_seed_done s1" "cs_side s1 = cs_side s" by simp_all
        show ?thesis
        proof (cases "err \<noteq> CC3XX_ERR_SUCCESS")
          case True
          with run inloop Some Returns r
          have "fisher_yates_loop cfg permutation_buf len quality value_at swap_idx1 (idx + 1) s1 = Some oc"
            by simp
          from "1.IH"(1) [OF inloop Some Returns r [symmetric] True this q s1(1)] s1
          show ?thesis by simp
        next
          case False
          with run inloop Some Returns r
          have "fisher_yates_loop cfg
                  (permutation_buf[idx := permutation_buf ! unat (swap_idx1 + of_nat idx),
                                   unat (swap_idx1 + of_nat idx) := permutation_buf ! idx])
                  len quality value_at (swap_idx1 + of_nat idx) (idx + 1) s1 = Some oc"
            by (simp add: Let_def)
          from "1.IH"(2) [OF inloop Some Returns r [symmetric] False refl refl refl refl this
                             q s1(1)] s1
          show ?thesis by simp
        qed
      next
        case (AssertFailed s1)
        with run inloop Some inv1 show ?thesis by auto
      next
        case (FatalHalt s1)
        with run inloop Some inv1 show ?thesis by auto
      qed
    qed
  qed
qed

lemma get_random_permutation_fast_seeded:
  assumes "cc3xx_lowlevel_rng_get_random_permutation cfg permutation_buf len CC3XX_RNG_FAST value_at s
             = Some oc"
    and "lfsr_seed_done s"
  shows "lfsr_seed_done (outcome_state oc) \<and> cs_side (outcome_state oc) = cs_side s"
proof (cases "CC3XX_CONFIG_DPA_MITIGATIONS_ENABLE cfg \<and> len \<noteq> 0")
  case True
  with assms(1) have "fisher_yates_loop cfg (permutation_init permutation_buf len 0) len
                        CC3XX_RNG_FAST value_at 0 0 s = Some oc"
    by (simp add: cc3xx_lowlevel_rng_get_random_permutation_def fisher_yates_shuffle_def Let_def)
  from fisher_yates_loop_fast_seeded [OF this refl assms(2)] show ?thesis .
next
  case False
  with assms show ?thesis
    by (auto simp: cc3xx_lowlevel_rng_get_random_permutation_def fisher_yates_shuffle_def Let_def
             split: if_splits)
qed

lemma fast_op_run_seeded:
  "fast_op_run cfg op s = Some s' \<Longrightarrow> lfsr_seed_done s
   \<Longrightarrow> lfsr_seed_done s' \<and> cs_side s' = cs_side s"
proof (cases op)
  case (GetRandom buf dst len)
  assume "fast_op_run cfg op s = Some s'" "lfsr_seed_done s"
  with GetRandom show ?thesis using get_random_fast_seeded by auto
next
  case (GetRandomUint bound uint_mem value_w)
  assume "fast_op_run cfg op s = Some s'" "lfsr_seed_done s"
  with GetRandomUint show ?thesis using get_random_uint_fast_seeded by auto
next
  case (GetRandomPermutation permutation_buf len value_at)
  assume "fast_op_run cfg op s = Some s'" "lfsr_seed_done s"
  with GetRandomPermutation show ?thesis using get_random_permutation_fast_seeded by auto
qed


lemma fast_ops_states_seeded:
  "fast_ops_states cfg ops s = Some ss \<Longrightarrow> lfsr_seed_done s
   \<Longrightarrow> \<forall>t \<in> set ss. lfsr_seed_done t \<and> cs_side t = cs_side s"
proof (induction ops arbitrary: s ss)
  case Nil
  then show ?case by auto
next
  case (Cons op ops)
  from Cons.prems(1) obtain s' ss' where
    run: "fast_op_run cfg op s = Some s'" and rest: "fast_ops_states cfg ops s' = Some ss'"
    and ss: "ss = s # ss'"
    by (auto split: option.splits)
  from fast_op_run_seeded [OF run Cons.prems(2)]
  have s': "lfsr_seed_done s'" "cs_side s' = cs_side s" by simp_all
  from Cons.IH [OF rest s'(1)] s'(2) Cons.prems(2) ss show ?case by auto
qed

lemma fast_ops_states_length:
  "fast_ops_states cfg ops s = Some ss \<Longrightarrow> length ss = Suc (length ops)"
  by (induction ops arbitrary: s ss) (auto split: option.splits)

lemma fast_ops_states_drop:
  "fast_ops_states cfg ops s = Some ss \<Longrightarrow> i \<le> length ops
   \<Longrightarrow> fast_ops_states cfg (drop i ops) (ss ! i) = Some (drop i ss)"
proof (induction ops arbitrary: s ss i)
  case Nil
  then show ?case by auto
next
  case (Cons op ops)
  from Cons.prems(1) obtain s' ss' where
    run: "fast_op_run cfg op s = Some s'" and rest: "fast_ops_states cfg ops s' = Some ss'"
    and ss: "ss = s # ss'"
    by (auto split: option.splits)
  show ?case
  proof (cases i)
    case 0
    with Cons.prems(1) ss show ?thesis by simp
  next
    case (Suc k)
    with Cons.prems(2) have "k \<le> length ops" by simp
    from Cons.IH [OF rest this] Suc ss show ?thesis by simp
  qed
qed

lemma fast_ops_states_monotone:
  assumes run: "fast_ops_states cfg ops s = Some ss"
    and ij: "i \<le> j" "j < length ss" and seeded: "lfsr_seed_done (ss ! i)"
  shows "lfsr_seed_done (ss ! j) \<and> cs_side (ss ! j) = cs_side (ss ! i)"
proof -
  have len: "length ss = Suc (length ops)"
    using run by (rule fast_ops_states_length)
  with ij have i: "i \<le> length ops" by simp
  from fast_ops_states_seeded [OF fast_ops_states_drop [OF run i] seeded]
  have all: "\<forall>t \<in> set (drop i ss). lfsr_seed_done t \<and> cs_side t = cs_side (ss ! i)" .
  have "ss ! j = drop i ss ! (j - i)" using ij by simp
  moreover have "j - i < length (drop i ss)" using ij by simp
  ultimately have "ss ! j \<in> set (drop i ss)" by (metis nth_mem)
  with all show ?thesis by blast
qed

lemma fast_ops_states_seed_once:
  assumes run: "fast_ops_states cfg ops s = Some ss"
  shows "card {i. Suc i < length ss \<and> \<not> lfsr_seed_done (ss ! i) \<and> lfsr_seed_done (ss ! Suc i)}
           \<le> 1"
proof -
  let ?A = "{i. Suc i < length ss \<and> \<not> lfsr_seed_done (ss ! i) \<and> lfsr_seed_done (ss ! Suc i)}"
  have "?A \<subseteq> {..<length ss}" by auto
  then have fin: "finite ?A" by (rule finite_subset) simp
  have "a = b" if a: "a \<in> ?A" and b: "b \<in> ?A" for a b
  proof (rule ccontr)
    assume ne: "a \<noteq> b"
    have no: False if "x \<in> ?A" "y \<in> ?A" "x < y" for x y
    proof -
      from that have "Suc x \<le> y" "y < length ss" "lfsr_seed_done (ss ! Suc x)"
        "\<not> lfsr_seed_done (ss ! y)"
        by auto
      with fast_ops_states_monotone [OF run, of "Suc x" y] show False by blast
    qed
    from ne have "a < b \<or> b < a" by auto
    with no [OF a b] no [OF b a] show False by blast
  qed
  then have "\<forall>a \<in> ?A. \<forall>b \<in> ?A. a = b" by blast
  with fin show ?thesis by (simp add: card_le_Suc0_iff_eq)
qed

lemma xorshift_unseeded:
  assumes "\<not> lfsr_seed_done s" and "xorshift_plus_128_lfsr cfg s = Some (Returns r s')"
  shows "\<exists>err bytes s1.
           cc3xx_lowlevel_rng_get_random cfg 0
             (le_bytes64 (fst (lfsr_state s)) @ le_bytes64 (snd (lfsr_state s))) 16
             CC3XX_RNG_CRYPTOGRAPHICALLY_SECURE s = Some (Returns (err, bytes) s1)
           \<and> lfsr_seed_done s' \<and> cs_side s' = cs_side s1
           \<and> r = fst (xorshift_step (le_word (take 8 bytes), le_word (take 8 (drop 8 bytes))))
           \<and> lfsr_state s'
               = snd (xorshift_step (le_word (take 8 bytes), le_word (take 8 (drop 8 bytes))))"
  using assms
  by (auto simp: xorshift_plus_128_lfsr_def cc3xx_lowlevel_rng_get_random_def cs_side_def
           split: option.splits outcome.splits prod.splits)

text \<open>
  Claim C7. A call of \<^verbatim>\<open>xorshift_plus_128_lfsr\<close> that finds the flag clear makes one
  draw of 16 bytes from the cryptographically secure pool and returns with the flag
  set; nothing else of that pool or of the hardware has changed, and the generator
  state that the call steps from is the two words that the draw left in those 16
  bytes. A call that finds the
  flag set makes no draw: it only steps the generator state. Over any sequence of
  calls of the public functions with \<open>CC3XX_RNG_FAST\<close>, the flag goes from clear to set
  at most once, and from a state with the flag set onwards the flag stays set and the
  cryptographically secure pool and the hardware are never touched again.
\<close>

theorem C7_fast_generator_seeded_once:
  "(\<not> lfsr_seed_done s \<and> xorshift_plus_128_lfsr cfg s = Some (Returns r s') \<longrightarrow>
      (\<exists>err bytes s1.
          cc3xx_lowlevel_rng_get_random cfg 0
            (le_bytes64 (fst (lfsr_state s)) @ le_bytes64 (snd (lfsr_state s))) 16
            CC3XX_RNG_CRYPTOGRAPHICALLY_SECURE s = Some (Returns (err, bytes) s1)
          \<and> lfsr_seed_done s' \<and> cs_side s' = cs_side s1
          \<and> r = fst (xorshift_step (le_word (take 8 bytes), le_word (take 8 (drop 8 bytes))))
          \<and> lfsr_state s'
              = snd (xorshift_step (le_word (take 8 bytes), le_word (take 8 (drop 8 bytes))))))
   \<and> (lfsr_seed_done s \<longrightarrow>
        xorshift_plus_128_lfsr cfg s
          = Some (Returns (fst (xorshift_step (lfsr_state s)))
                    (s\<lparr>lfsr_state := snd (xorshift_step (lfsr_state s))\<rparr>)))
   \<and> (fast_ops_states cfg ops s = Some ss \<longrightarrow>
        card {i. Suc i < length ss \<and> \<not> lfsr_seed_done (ss ! i) \<and> lfsr_seed_done (ss ! Suc i)}
          \<le> 1
        \<and> (\<forall>i j. i \<le> j \<and> j < length ss \<and> lfsr_seed_done (ss ! i) \<longrightarrow>
               lfsr_seed_done (ss ! j) \<and> cs_side (ss ! j) = cs_side (ss ! i)))"
  using xorshift_unseeded [of s cfg r s'] xorshift_seeded [of s cfg]
    fast_ops_states_seed_once [of cfg ops s ss] fast_ops_states_monotone [of cfg ops s ss]
  by blast


text \<open>
  An instance: three Fast calls from the initial state. The first one seeds the
  generator; the flag is set from then on and the later calls leave the secure pool
  and the hardware as the first call left them.
\<close>

theorem C7_fast_generator_seeded_once_witness:
  "\<exists>ss r s1.
     fast_ops_states (example_config 16 True False)
         [GetRandom 0 [0, 0, 0, 0] 4, GetRandomUint 10 0 0, GetRandom 1 [0, 0, 0] 3]
         (initial_state (example_config 16 True False) [1, 1, 1, 1] [0x1337]
            [0x04030201, 0x08070605, 0x0C0B0A09, 0x100F0E0D]) = Some ss
     \<and> map lfsr_seed_done ss = [False, True, True, True]
     \<and> card {i. Suc i < length ss \<and> \<not> lfsr_seed_done (ss ! i) \<and> lfsr_seed_done (ss ! Suc i)}
          \<le> 1
     \<and> cs_side (ss ! 3) = cs_side (ss ! 1)
     \<and> \<not> lfsr_seed_done (initial_state (example_config 16 True False) [1, 1, 1, 1] [0x1337]
            [0x04030201, 0x08070605, 0x0C0B0A09, 0x100F0E0D])
     \<and> xorshift_plus_128_lfsr (example_config 16 True False)
         (initial_state (example_config 16 True False) [1, 1, 1, 1] [0x1337]
            [0x04030201, 0x08070605, 0x0C0B0A09, 0x100F0E0D]) = Some (Returns r s1)
     \<and> lfsr_seed_done s1
     \<and> xorshift_plus_128_lfsr (example_config 16 True False) s1
         = Some (Returns (fst (xorshift_step (lfsr_state s1)))
                   (s1\<lparr>lfsr_state := snd (xorshift_step (lfsr_state s1))\<rparr>))"
proof -
  let ?cfg = "example_config 16 True False"
  let ?s = "initial_state ?cfg [1, 1, 1, 1] [0x1337]
              [0x04030201, 0x08070605, 0x0C0B0A09, 0x100F0E0D]"
  let ?ops = "[GetRandom 0 [0, 0, 0, 0] 4, GetRandomUint 10 0 0, GetRandom 1 [0, 0, 0] 3]"
  have "case fast_ops_states ?cfg ?ops ?s of
          Some ss \<Rightarrow> map lfsr_seed_done ss = [False, True, True, True]
        | None \<Rightarrow> False"
    by code_simp
  then obtain ss where ss: "fast_ops_states ?cfg ?ops ?s = Some ss"
    and flags: "map lfsr_seed_done ss = [False, True, True, True]"
    by (auto split: option.splits)
  have "case xorshift_plus_128_lfsr ?cfg ?s of
          Some (Returns r s1) \<Rightarrow> True
        | _ \<Rightarrow> False"
    by code_simp
  then obtain r s1 where x: "xorshift_plus_128_lfsr ?cfg ?s = Some (Returns r s1)"
    by (auto split: option.splits outcome.splits)
  have unseeded: "\<not> lfsr_seed_done ?s"
    by (simp add: initial_state_def)
  note inst = C7_fast_generator_seeded_once [of ?s ?cfg r s1 ?ops ss]
  from inst unseeded x have s1: "lfsr_seed_done s1" by blast
  note inst1 = C7_fast_generator_seeded_once [of s1 ?cfg r s1 ?ops ss]
  from inst1 s1 have again: "xorshift_plus_128_lfsr ?cfg s1
         = Some (Returns (fst (xorshift_step (lfsr_state s1)))
                   (s1\<lparr>lfsr_state := snd (xorshift_step (lfsr_state s1))\<rparr>))"
    by blast
  from inst ss have once:
    "card {i. Suc i < length ss \<and> \<not> lfsr_seed_done (ss ! i) \<and> lfsr_seed_done (ss ! Suc i)} \<le> 1"
    and mono: "\<forall>i j. i \<le> j \<and> j < length ss \<and> lfsr_seed_done (ss ! i) \<longrightarrow>
               lfsr_seed_done (ss ! j) \<and> cs_side (ss ! j) = cs_side (ss ! i)"
    by blast+
  from flags have len: "length ss = 4" and f1: "lfsr_seed_done (ss ! 1)"
    by (auto simp: map_eq_Cons_conv)
  from mono [rule_format, of 1 3] len f1 have "cs_side (ss ! 3) = cs_side (ss ! 1)"
    by simp
  then have "fast_ops_states ?cfg ?ops ?s = Some ss
     \<and> map lfsr_seed_done ss = [False, True, True, True]
     \<and> card {i. Suc i < length ss \<and> \<not> lfsr_seed_done (ss ! i) \<and> lfsr_seed_done (ss ! Suc i)}
          \<le> 1
     \<and> cs_side (ss ! 3) = cs_side (ss ! 1)
     \<and> \<not> lfsr_seed_done ?s
     \<and> xorshift_plus_128_lfsr ?cfg ?s = Some (Returns r s1)
     \<and> lfsr_seed_done s1
     \<and> xorshift_plus_128_lfsr ?cfg s1
         = Some (Returns (fst (xorshift_step (lfsr_state s1)))
                   (s1\<lparr>lfsr_state := snd (xorshift_step (lfsr_state s1))\<rparr>))"
    using ss flags once unseeded x s1 again by (intro conjI)
  then show ?thesis by (intro exI)
qed

subsection \<open>A failed refill in the byte-fill function\<close>

text \<open>
  Claim C3 does not hold for a failure of the backing generator during a refill. The
  entropy pool is used up and the health test fails on three polls in a row, with a
  limit of three and a \<^verbatim>\<open>FATAL_ERR\<close> that returns: \<^verbatim>\<open>trng_init\<close> succeeds,
  \<^verbatim>\<open>trng_get_random\<close> returns \<open>CC3XX_ERR_RNG_TOO_MANY_ATTEMPTS\<close>, the code jumps to
  \<^verbatim>\<open>out\<close>, and there \<^verbatim>\<open>err = trng_finish()\<close> replaces the error:
  \<^verbatim>\<open>cc3xx_lowlevel_rng_get_random\<close> returns \<open>CC3XX_ERR_SUCCESS\<close> with the caller's four
  bytes never written.
\<close>

theorem C3_refill_failure_returns_success:
  "cc3xx_lowlevel_rng_get_random (example_config 3 True False) 0 (replicate 4 0) 4
     CC3XX_RNG_CRYPTOGRAPHICALLY_SECURE
     (initial_state (example_config 3 True False) [2, 0, 2, 0, 2, 0] [0x1337] [])
   = Some (Returns (CC3XX_ERR_SUCCESS, [0, 0, 0, 0])
       ((initial_state (example_config 3 True False) [2, 0, 2, 0, 2, 0] [0x1337] [])
          \<lparr>reg_writes :=
             [(RNG_CLK_ENABLE, 1), (RNG_SW_RESET, 1), (RNG_CLK_ENABLE, 1),
              (SAMPLE_CNT1, 0x1337), (RND_SOURCE_ENABLE, 0), (RNG_ICR, 0x3F),
              (RNG_IMR, 0x3E), (TRNG_CONFIG, 4), (TRNG_DEBUG_CONTROL, 0),
              (RND_SOURCE_ENABLE, 1), (RST_BITS_COUNTER, 1), (RNG_ICR, 0x3F),
              (RST_BITS_COUNTER, 1), (RNG_ICR, 0x3F), (RST_BITS_COUNTER, 1),
              (RNG_ICR, 0x3F), (RND_SOURCE_ENABLE, 0), (RNG_CLK_ENABLE, 0),
              (RND_SOURCE_ENABLE, 0), (RNG_CLK_ENABLE, 0)],
           rng_isr_reads := [], sample_cnt1_reads := [],
           fatal_errors := [CC3XX_ERR_RNG_TOO_MANY_ATTEMPTS]\<rparr>))
   \<and> (case trng_init (example_config 3 True False)
              (initial_state (example_config 3 True False) [2, 0, 2, 0, 2, 0] [0x1337] []) of
         Some (Returns err1 s1) \<Rightarrow>
           err1 = CC3XX_ERR_SUCCESS
           \<and> (case trng_get_random (example_config 3 True False) (entropy_buf s1) 2 s1 of
                 Some (Returns (err2, b) s2) \<Rightarrow> err2 = CC3XX_ERR_RNG_TOO_MANY_ATTEMPTS
               | _ \<Rightarrow> False)
       | _ \<Rightarrow> False)"
  by code_simp

subsection \<open>The Fisher-Yates shuffle\<close>

lemma foldl_spec_shuffle_step_None:
  "foldl (spec_shuffle_step cfg len quality value_at) None is = None"
  by (induction "is") simp_all

lemma foldl_spec_shuffle_step_AssertFailed:
  "foldl (spec_shuffle_step cfg len quality value_at) (Some (AssertFailed s)) is = Some (AssertFailed s)"
  by (induction "is") simp_all

lemma foldl_spec_shuffle_step_FatalHalt:
  "foldl (spec_shuffle_step cfg len quality value_at) (Some (FatalHalt s)) is = Some (FatalHalt s)"
  by (induction "is") simp_all


lemma get_random_uint_success_below:
  "cc3xx_lowlevel_rng_get_random_uint cfg bound uint_mem quality value_w s
     = Some (Returns (CC3XX_ERR_SUCCESS, v) s') \<Longrightarrow> v < bound"
  using rng_uint_loop_success_below
  by (auto simp: cc3xx_lowlevel_rng_get_random_uint_def split: if_splits)

lemma swap_index_no_wrap:
  assumes v: "(v :: u32) < of_nat (len - idx)" and len: "len < 2 ^ 32" and idx: "idx < len"
  shows "unat (v + of_nat idx) = idx + unat v" and "idx + unat v < len"
proof -
  have "unat (of_nat (len - idx) :: u32) = len - idx"
    using len by (simp add: unat_of_nat)
  with v have lt: "unat v < len - idx"
    by (simp add: word_less_nat_alt)
  then show b: "idx + unat v < len" using idx by simp
  have "unat (of_nat idx :: u32) = idx"
    using len idx by (simp add: unat_of_nat)
  moreover have "unat v + idx < 2 ^ 32" using b len by simp
  ultimately show "unat (v + of_nat idx) = idx + unat v"
    by (simp add: unat_word_ariths)
qed

lemma fisher_yates_loop_spec:
  "0 < len \<Longrightarrow> len < 2 ^ 32 \<Longrightarrow> idx \<le> len \<Longrightarrow>
   fisher_yates_loop cfg permutation_buf len quality value_at swap_idx idx s
     = foldl (spec_shuffle_step cfg len quality value_at) (Some (Returns permutation_buf s)) [idx..<len]"
proof (induction cfg permutation_buf len quality value_at swap_idx idx s rule: fisher_yates_loop.induct)
  case (1 cfg permutation_buf len quality value_at swap_idx idx s)
  note loop = fisher_yates_loop.simps [of cfg permutation_buf len quality value_at swap_idx idx s]
  note pos = "1.prems"(1) and len = "1.prems"(2) and le = "1.prems"(3)
  show ?case
  proof (cases "idx \<le> len - 1")
    case False
    with le pos have "[idx..<len] = []" by simp
    with False show ?thesis by (simp add: loop)
  next
    case inloop: True
    with pos have lt: "idx < len" by simp
    then have upt: "[idx..<len] = idx # [idx + 1..<len]"
      by (simp add: upt_conv_Cons)
    have next_le: "idx + 1 \<le> len" using lt by simp
    note mem = get_random_uint_uint_mem [of cfg "of_nat (len - idx)" swap_idx quality
      "value_at idx" s]
    show ?thesis
    proof (cases "cc3xx_lowlevel_rng_get_random_uint cfg (of_nat (len - idx)) 0 quality
                     (value_at idx) s")
      case None
      with mem inloop show ?thesis
        by (simp add: loop upt foldl_spec_shuffle_step_None)
    next
      case (Some oc0)
      show ?thesis
      proof (cases oc0)
        case (Returns r s1)
        obtain err v where r: "r = (err, v)" by (cases r)
        show ?thesis
        proof (cases "err \<noteq> CC3XX_ERR_SUCCESS")
          case True
          with mem Some Returns r
          have u: "cc3xx_lowlevel_rng_get_random_uint cfg (of_nat (len - idx)) swap_idx quality
                     (value_at idx) s
                     = Some (Returns (err, swap_idx) s1)"
            by simp
          from "1.IH"(1) [OF inloop u refl refl True pos len next_le]
          have "fisher_yates_loop cfg permutation_buf len quality value_at swap_idx (idx + 1) s1
                  = foldl (spec_shuffle_step cfg len quality value_at) (Some (Returns permutation_buf s1))
                      [idx + 1..<len]" .
          with u True inloop Some Returns r show ?thesis
            by (simp add: loop upt)
        next
          case False
          then have ok: "err = CC3XX_ERR_SUCCESS" by simp
          with mem Some Returns r
          have u: "cc3xx_lowlevel_rng_get_random_uint cfg (of_nat (len - idx)) swap_idx quality
                     (value_at idx) s
                     = Some (Returns (CC3XX_ERR_SUCCESS, v) s1)"
            by simp
          from get_random_uint_success_below [OF u] have "v < of_nat (len - idx)" .
          from swap_index_no_wrap [OF this len lt]
          have un: "unat (v + of_nat idx) = idx + unat v" by simp
          let ?p = "permutation_buf[idx := permutation_buf ! unat (v + of_nat idx),
                                    unat (v + of_nat idx) := permutation_buf ! idx]"
          from "1.IH"(2) [OF inloop u refl refl _ refl refl refl refl pos len next_le]
          have "fisher_yates_loop cfg ?p len quality value_at (v + of_nat idx) (idx + 1) s1
                  = foldl (spec_shuffle_step cfg len quality value_at) (Some (Returns ?p s1))
                      [idx + 1..<len]"
            by simp
          with u inloop Some Returns r ok un show ?thesis
            by (simp add: loop upt Let_def spec_exchange_def)
        qed
      next
        case (AssertFailed s1)
        with mem Some inloop show ?thesis
          by (simp add: loop upt foldl_spec_shuffle_step_AssertFailed)
      next
        case (FatalHalt s1)
        with mem Some inloop show ?thesis
          by (simp add: loop upt foldl_spec_shuffle_step_FatalHalt)
      qed
    qed
  qed
qed


lemma spec_shuffle_fold_rearranges:
  "foldl (spec_shuffle_step cfg len quality value_at) (Some (Returns perm s)) is = Some (Returns b s')
   \<Longrightarrow> \<forall>i \<in> set is. i < len \<Longrightarrow> len \<le> length perm \<Longrightarrow> len < 2 ^ 32
   \<Longrightarrow> mset b = mset perm \<and> length b = length perm \<and> drop len b = drop len perm"
proof (induction "is" arbitrary: perm s)
  case Nil
  then show ?case by simp
next
  case (Cons i "is")
  from Cons.prems(2) have i: "i < len" and rest: "\<forall>i \<in> set is. i < len" by simp_all
  note len = Cons.prems(3) and len32 = Cons.prems(4)
  let ?acc = "spec_shuffle_step cfg len quality value_at (Some (Returns perm s)) i"
  from Cons.prems(1) have run: "foldl (spec_shuffle_step cfg len quality value_at) ?acc is
                                  = Some (Returns b s')"
    by simp
  show ?case
  proof (cases ?acc)
    case None
    with run show ?thesis by (simp add: foldl_spec_shuffle_step_None)
  next
    case (Some oc)
    show ?thesis
    proof (cases oc)
      case (Returns perm1 s1)
      have p1: "mset perm1 = mset perm \<and> length perm1 = length perm
                \<and> drop len perm1 = drop len perm"
      proof (cases "cc3xx_lowlevel_rng_get_random_uint cfg (of_nat (len - i)) 0 quality (value_at i) s")
        case None
        with Some show ?thesis by simp
      next
        case u: (Some ou)
        show ?thesis
        proof (cases ou)
          case r: (Returns ev s2)
          obtain err v where ev: "ev = (err, v)" by (cases ev)
          show ?thesis
          proof (cases "err = CC3XX_ERR_SUCCESS")
            case True
            with u r ev have "cc3xx_lowlevel_rng_get_random_uint cfg (of_nat (len - i)) 0 quality (value_at i) s
                                = Some (Returns (CC3XX_ERR_SUCCESS, v) s2)"
              by simp
            from get_random_uint_success_below [OF this] have "v < of_nat (len - i)" .
            from swap_index_no_wrap(2) [OF this len32 i] have j: "i + unat v < len" .
            from Some Returns u r ev True
            have "perm1 = spec_exchange i (i + unat v) perm" by simp
            moreover have "mset (spec_exchange i (i + unat v) perm) = mset perm"
              unfolding spec_exchange_def using i j len
              by (intro mset_swap) simp_all
            moreover have "drop len (spec_exchange i (i + unat v) perm) = drop len perm"
              using i j by (simp add: spec_exchange_def)
            ultimately show ?thesis by (simp add: spec_exchange_def)
          next
            case False
            with Some Returns u r ev show ?thesis by simp
          qed
        next
          case (AssertFailed s2)
          with Some Returns u show ?thesis by simp
        next
          case (FatalHalt s2)
          with Some Returns u show ?thesis by simp
        qed
      qed
      from run Some Returns
      have "foldl (spec_shuffle_step cfg len quality value_at) (Some (Returns perm1 s1)) is
              = Some (Returns b s')"
        by simp
      from Cons.IH [OF this rest] p1 len len32 show ?thesis by simp
    next
      case (AssertFailed s1)
      with run Some show ?thesis by (simp add: foldl_spec_shuffle_step_AssertFailed)
    next
      case (FatalHalt s1)
      with run Some show ?thesis by (simp add: foldl_spec_shuffle_step_FatalHalt)
    qed
  qed
qed

lemma get_random_permutation_fold:
  assumes dpa: "CC3XX_CONFIG_DPA_MITIGATIONS_ENABLE cfg"
    and len: "len \<le> length permutation_buf" and len32: "len < 2 ^ 32"
  shows "cc3xx_lowlevel_rng_get_random_permutation cfg permutation_buf len quality value_at s
           = foldl (spec_shuffle_step cfg len quality value_at)
               (Some (Returns (map of_nat [0..<len] @ drop len permutation_buf) s)) [0..<len]"
proof (cases "len = 0")
  case True
  then show ?thesis using dpa
    by (simp add: cc3xx_lowlevel_rng_get_random_permutation_def fisher_yates_shuffle_def
        permutation_init.simps [of _ 0 0])
next
  case False
  then have pos: "0 < len" by simp
  have init: "permutation_init permutation_buf len 0
                = map of_nat [0..<len] @ drop len permutation_buf"
    using len by (simp add: permutation_init_eq)
  from fisher_yates_loop_spec [OF pos len32, of 0 cfg _ quality value_at 0 s] dpa False init
  show ?thesis
    by (simp add: cc3xx_lowlevel_rng_get_random_permutation_def fisher_yates_shuffle_def)
qed

lemma spec_exchange_numbers:
  assumes "i < len" "j < len" "len \<le> length xs"
  shows "map f (take len (spec_exchange i j xs)) = spec_exchange i j (map f (take len xs))"
  using assms by (simp add: spec_exchange_def take_update_swap map_update)

lemma length_spec_exchange: "length (spec_exchange i j xs) = length xs"
  by (simp add: spec_exchange_def)

lemma spec_shuffle_fold_numbers:
  assumes "\<forall>i \<in> set is. i < len" and "len \<le> length xs" and "len < 2 ^ 32"
  shows "buffer_numbers len
           (foldl (spec_shuffle_step cfg len quality value_at) (Some (Returns xs s)) is)
         = foldl (spec_shuffle_step cfg len quality value_at)
             (Some (Returns (map unat (take len xs)) s)) is"
  using assms
proof (induction "is" arbitrary: xs s)
  case Nil
  then show ?case by (simp add: buffer_numbers_def)
next
  case (Cons i "is")
  from Cons.prems(1) have i: "i < len" and rest: "\<forall>i \<in> set is. i < len" by simp_all
  note len = Cons.prems(2) and len32 = Cons.prems(3)
  show ?case
  proof (cases "cc3xx_lowlevel_rng_get_random_uint cfg (of_nat (len - i)) 0 quality (value_at i) s")
    case None
    then show ?thesis
      by (simp add: foldl_spec_shuffle_step_None buffer_numbers_def)
  next
    case u: (Some ou)
    show ?thesis
    proof (cases ou)
      case r: (Returns ev s1)
      obtain err v where ev: "ev = (err, v)" by (cases ev)
      show ?thesis
      proof (cases "err = CC3XX_ERR_SUCCESS")
        case True
        with u r ev have "cc3xx_lowlevel_rng_get_random_uint cfg (of_nat (len - i)) 0 quality
                            (value_at i) s = Some (Returns (CC3XX_ERR_SUCCESS, v) s1)"
          by simp
        from get_random_uint_success_below [OF this] have "v < of_nat (len - i)" .
        from swap_index_no_wrap(2) [OF this len32 i] have j: "i + unat v < len" .
        have l: "len \<le> length (spec_exchange i (i + unat v) xs)"
          using len by (simp add: length_spec_exchange)
        from Cons.IH [OF rest l len32, of s1]
             spec_exchange_numbers [OF i j len, of unat]
        show ?thesis using u r ev True by simp
      next
        case False
        with Cons.IH [OF rest len len32, of s1] u r ev show ?thesis by simp
      qed
    next
      case (AssertFailed s1)
      with u show ?thesis
        by (simp add: foldl_spec_shuffle_step_AssertFailed buffer_numbers_def)
    next
      case (FatalHalt s1)
      with u show ?thesis
        by (simp add: foldl_spec_shuffle_step_FatalHalt buffer_numbers_def)
    qed
  qed
qed

text \<open>
  Claim C8, as amended. With the countermeasure compiled in, for a buffer of at least
  \<open>len\<close> bytes and \<open>len\<close> up to 256 (the elements are bytes),
  \<^verbatim>\<open>cc3xx_lowlevel_rng_get_random_permutation\<close> is the shuffle that the specification
  words: the numbers in the first \<open>len\<close> bytes of the buffer, and the way the call ends,
  are those of the shuffle of the identity sequence \<open>[0, 1, \<dots>, len - 1]\<close> that makes,
  for each index \<open>i\<close> from 0 to \<open>len - 1\<close>, one draw below \<open>len - i\<close> and an exchange of
  the elements at \<open>i\<close> and at \<open>i\<close> plus the value drawn, and no exchange for an index
  whose draw fails. When the call returns, the first \<open>len\<close> bytes of the buffer are a
  rearrangement of \<open>0, 1, \<dots>, len - 1\<close> and the bytes beyond \<open>len\<close> are as they were.
\<close>

theorem C8_fisher_yates_shuffle:
  assumes dpa: "CC3XX_CONFIG_DPA_MITIGATIONS_ENABLE cfg"
    and len: "len \<le> length permutation_buf" and len256: "len \<le> 256"
  shows "buffer_numbers len
           (cc3xx_lowlevel_rng_get_random_permutation cfg permutation_buf len quality value_at s)
           = spec_random_permutation cfg len quality value_at s
         \<and> (\<forall>b s'. cc3xx_lowlevel_rng_get_random_permutation cfg permutation_buf len quality
                      value_at s = Some (Returns b s') \<longrightarrow>
                    mset (map unat (take len b)) = mset [0..<len]
                    \<and> drop len b = drop len permutation_buf)"
proof (intro conjI allI impI)
  from len256 have len32: "len < 2 ^ 32" by simp
  let ?start = "map of_nat [0..<len] @ drop len permutation_buf :: u8 list"
  have fold: "cc3xx_lowlevel_rng_get_random_permutation cfg permutation_buf len quality value_at s
           = foldl (spec_shuffle_step cfg len quality value_at) (Some (Returns ?start s)) [0..<len]"
    using dpa len len32 by (rule get_random_permutation_fold)
  have start: "map unat (take len ?start) = [0..<len]"
    using map_unat_identity [OF len256] by simp
  have "buffer_numbers len (foldl (spec_shuffle_step cfg len quality value_at)
            (Some (Returns ?start s)) [0..<len])
        = foldl (spec_shuffle_step cfg len quality value_at)
            (Some (Returns (map unat (take len ?start)) s)) [0..<len]"
    using len32 by (intro spec_shuffle_fold_numbers) simp_all
  then show "buffer_numbers len
           (cc3xx_lowlevel_rng_get_random_permutation cfg permutation_buf len quality value_at s)
           = spec_random_permutation cfg len quality value_at s"
    by (simp only: fold start spec_random_permutation_def)
  fix b s'
  assume "cc3xx_lowlevel_rng_get_random_permutation cfg permutation_buf len quality value_at s
            = Some (Returns b s')"
  with fold have "foldl (spec_shuffle_step cfg len quality value_at)
       (Some (Returns ?start s)) [0..<len] = Some (Returns b s')"
    by simp
  from spec_shuffle_fold_rearranges [OF this] len len32
  have m: "mset b = mset ?start"
    and l: "length b = length ?start"
    and d: "drop len b = drop len ?start"
    by simp_all
  from d show d': "drop len b = drop len permutation_buf" by simp
  have "mset (take len b) + mset (drop len b) = mset b"
    by (metis append_take_drop_id mset_append)
  with m d' have "mset (take len b) = mset (map of_nat [0..<len] :: u8 list)"
    by simp
  then have "mset (map unat (take len b)) = mset (map unat (map of_nat [0..<len] :: u8 list))"
    by (metis mset_map)
  with map_unat_identity [OF len256]
  show "mset (map unat (take len b)) = mset [0..<len]"
    by simp
qed

text \<open>
  Two instances: a shuffle of four elements drawn from the hardware words, and a run
  with an attempt limit of 1, where every draw fails and no position is exchanged.
\<close>

theorem C8_fisher_yates_shuffle_witness:
  "\<exists>s1 s2.
     cc3xx_lowlevel_rng_get_random_permutation (example_config 16 True False) [9, 9, 9, 9] 4
         CC3XX_RNG_CRYPTOGRAPHICALLY_SECURE (\<lambda>i. 0)
         (initial_state (example_config 16 True False) [1, 1, 1, 1] [0x1337, 0x1337]
            [0x04030201, 0x08070605, 0x0C0B0A09, 0x100F0E0D])
       = Some (Returns [1, 2, 3, 0] s1)
     \<and> spec_random_permutation (example_config 16 True False) 4
         CC3XX_RNG_CRYPTOGRAPHICALLY_SECURE (\<lambda>i. 0)
         (initial_state (example_config 16 True False) [1, 1, 1, 1] [0x1337, 0x1337]
            [0x04030201, 0x08070605, 0x0C0B0A09, 0x100F0E0D])
       = Some (Returns [1, 2, 3, 0] s1)
     \<and> mset (map unat (take 4 [1, 2, 3, 0 :: u8])) = mset [0..<4]
     \<and> cc3xx_lowlevel_rng_get_random_permutation (example_config 1 True False) [9, 9] 2
         CC3XX_RNG_CRYPTOGRAPHICALLY_SECURE (\<lambda>i. 0)
         (example_state (example_config 1 True False) [1, 0, 0, 0, 1, 0, 0, 0] 0)
       = Some (Returns [0, 1] s2)
     \<and> spec_random_permutation (example_config 1 True False) 2
         CC3XX_RNG_CRYPTOGRAPHICALLY_SECURE (\<lambda>i. 0)
         (example_state (example_config 1 True False) [1, 0, 0, 0, 1, 0, 0, 0] 0)
       = Some (Returns [0, 1] s2)
     \<and> fatal_errors s2 = [CC3XX_ERR_RNG_TOO_MANY_ATTEMPTS, CC3XX_ERR_RNG_TOO_MANY_ATTEMPTS]"
proof -
  let ?c = "example_config 16 True False"
  let ?s = "initial_state ?c [1, 1, 1, 1] [0x1337, 0x1337]
              [0x04030201, 0x08070605, 0x0C0B0A09, 0x100F0E0D]"
  let ?c1 = "example_config 1 True False"
  let ?t = "example_state ?c1 [1, 0, 0, 0, 1, 0, 0, 0] 0"
  have "case cc3xx_lowlevel_rng_get_random_permutation ?c [9, 9, 9, 9] 4
               CC3XX_RNG_CRYPTOGRAPHICALLY_SECURE (\<lambda>i. 0) ?s of
          Some (Returns b s1) \<Rightarrow> b = [1, 2, 3, 0]
        | _ \<Rightarrow> False"
    by code_simp
  then obtain s1 where r1: "cc3xx_lowlevel_rng_get_random_permutation ?c [9, 9, 9, 9] 4
               CC3XX_RNG_CRYPTOGRAPHICALLY_SECURE (\<lambda>i. 0) ?s = Some (Returns [1, 2, 3, 0] s1)"
    by (auto split: option.splits outcome.splits)
  have "case cc3xx_lowlevel_rng_get_random_permutation ?c1 [9, 9] 2
               CC3XX_RNG_CRYPTOGRAPHICALLY_SECURE (\<lambda>i. 0) ?t of
          Some (Returns b s2) \<Rightarrow>
            b = [0, 1]
            \<and> fatal_errors s2 = [CC3XX_ERR_RNG_TOO_MANY_ATTEMPTS, CC3XX_ERR_RNG_TOO_MANY_ATTEMPTS]
        | _ \<Rightarrow> False"
    by code_simp
  then obtain s2 where r2: "cc3xx_lowlevel_rng_get_random_permutation ?c1 [9, 9] 2
               CC3XX_RNG_CRYPTOGRAPHICALLY_SECURE (\<lambda>i. 0) ?t = Some (Returns [0, 1] s2)"
    and f2: "fatal_errors s2 = [CC3XX_ERR_RNG_TOO_MANY_ATTEMPTS, CC3XX_ERR_RNG_TOO_MANY_ATTEMPTS]"
    by (auto split: option.splits outcome.splits)
  have dpa: "CC3XX_CONFIG_DPA_MITIGATIONS_ENABLE ?c" "CC3XX_CONFIG_DPA_MITIGATIONS_ENABLE ?c1"
    by (simp_all add: example_config_def)
  have l4: "4 \<le> length [9, 9, 9, 9 :: u8]" "(4 :: nat) \<le> 256" by simp_all
  have l2: "2 \<le> length [9, 9 :: u8]" "(2 :: nat) \<le> 256" by simp_all
  note i1 = C8_fisher_yates_shuffle [OF dpa(1) l4, of CC3XX_RNG_CRYPTOGRAPHICALLY_SECURE
      "\<lambda>i. 0" ?s]
  note i2 = C8_fisher_yates_shuffle [OF dpa(2) l2, of CC3XX_RNG_CRYPTOGRAPHICALLY_SECURE
      "\<lambda>i. 0" ?t]
  have n1: "map unat (take 4 [1, 2, 3, 0 :: u8]) = [1, 2, 3, 0]" by simp
  have n2: "map unat (take 2 [0, 1 :: u8]) = [0, 1]" by simp
  from i1 [THEN conjunct1] r1 have e1: "spec_random_permutation ?c 4
         CC3XX_RNG_CRYPTOGRAPHICALLY_SECURE (\<lambda>i. 0) ?s = Some (Returns [1, 2, 3, 0] s1)"
    by (simp add: buffer_numbers_def)
  from i1 [THEN conjunct2, rule_format, OF r1]
  have m1: "mset (map unat (take 4 [1, 2, 3, 0 :: u8])) = mset [0..<4]"
    by (rule conjunct1)
  from i2 [THEN conjunct1] r2 have e2: "spec_random_permutation ?c1 2
         CC3XX_RNG_CRYPTOGRAPHICALLY_SECURE (\<lambda>i. 0) ?t = Some (Returns [0, 1] s2)"
    by (simp add: buffer_numbers_def)
  have "cc3xx_lowlevel_rng_get_random_permutation ?c [9, 9, 9, 9] 4
         CC3XX_RNG_CRYPTOGRAPHICALLY_SECURE (\<lambda>i. 0) ?s = Some (Returns [1, 2, 3, 0] s1)
     \<and> spec_random_permutation ?c 4
         CC3XX_RNG_CRYPTOGRAPHICALLY_SECURE (\<lambda>i. 0) ?s = Some (Returns [1, 2, 3, 0] s1)
     \<and> mset (map unat (take 4 [1, 2, 3, 0 :: u8])) = mset [0..<4]
     \<and> cc3xx_lowlevel_rng_get_random_permutation ?c1 [9, 9] 2
         CC3XX_RNG_CRYPTOGRAPHICALLY_SECURE (\<lambda>i. 0) ?t = Some (Returns [0, 1] s2)
     \<and> spec_random_permutation ?c1 2
         CC3XX_RNG_CRYPTOGRAPHICALLY_SECURE (\<lambda>i. 0) ?t = Some (Returns [0, 1] s2)
     \<and> fatal_errors s2 = [CC3XX_ERR_RNG_TOO_MANY_ATTEMPTS, CC3XX_ERR_RNG_TOO_MANY_ATTEMPTS]"
    using r1 e1 m1 r2 e2 f2 by (intro conjI)
  then show ?thesis by (intro exI)
qed

lemma zero_draw_8:
  "cc3xx_lowlevel_rng_get_random (example_config 16 True False) 0 (le_bytes32 0) 4 CC3XX_RNG_FAST
     (example_fast_state (example_config 16 True False) 8)
   = Some (Returns (CC3XX_ERR_SUCCESS, [0, 0, 0, 0])
       (example_fast_state (example_config 16 True False) 4))"
  by code_simp

lemma zero_draw_4:
  "cc3xx_lowlevel_rng_get_random (example_config 16 True False) 0 (le_bytes32 0) 4 CC3XX_RNG_FAST
     (example_fast_state (example_config 16 True False) 4)
   = Some (Returns (CC3XX_ERR_SUCCESS, [0, 0, 0, 0])
       (example_fast_state (example_config 16 True False) 8))"
  by code_simp

lemma zero_draw_uint:
  assumes draw: "cc3xx_lowlevel_rng_get_random (example_config 16 True False) 0 (le_bytes32 0) 4
                   CC3XX_RNG_FAST s = Some (Returns (CC3XX_ERR_SUCCESS, [0, 0, 0, 0]) s')"
    and nz: "bound \<noteq> 0"
  shows "cc3xx_lowlevel_rng_get_random_uint (example_config 16 True False) bound uint_mem
           CC3XX_RNG_FAST 0 s = Some (Returns (CC3XX_ERR_SUCCESS, 0) s')"
proof -
  have lim: "\<not> CC3XX_CONFIG_RNG_MAX_ATTEMPTS (example_config 16 True False) \<le> 0 + 1"
    by code_simp
  have z: "le_word (take 4 [0, 0, 0, 0]) AND rng_uint_mask bound = (0 :: u32)"
    by simp
  from nz have acc: "\<not> bound \<le> le_word (take 4 [0, 0, 0, 0]) AND rng_uint_mask bound"
    by (simp only: z) (simp add: word_le_0_iff)
  from rng_uint_loop_accept [OF draw lim acc, of uint_mem] nz show ?thesis
    by (simp only: z cc3xx_lowlevel_rng_get_random_uint_def) simp
qed

lemma spec_exchange_same: "i < length xs \<Longrightarrow> spec_exchange i i xs = xs"
  by (simp add: spec_exchange_def)

lemma zero_draw_fold:
  assumes "\<forall>i \<in> set is. i < len" and "len \<le> length xs" and "len < 2 ^ 32"
    and "used = 4 \<or> used = 8"
  shows "\<exists>used'. (used' = 4 \<or> used' = 8)
          \<and> foldl (spec_shuffle_step (example_config 16 True False) len CC3XX_RNG_FAST (\<lambda>i. 0))
               (Some (Returns xs (example_fast_state (example_config 16 True False) used))) is
             = Some (Returns xs (example_fast_state (example_config 16 True False) used'))"
  using assms
proof (induction "is" arbitrary: used)
  case Nil
  then show ?case by auto
next
  case (Cons i "is")
  let ?c = "example_config 16 True False"
  from Cons.prems(1) have i: "i < len" and rest: "\<forall>i \<in> set is. i < len" by simp_all
  note len = Cons.prems(2) and len32 = Cons.prems(3)
  define n where "n = len - i"
  from i len32 have n: "n < 2 ^ 32" "0 < n" by (simp_all add: n_def)
  then have "unat (of_nat n :: u32) = n" by (simp add: unat_of_nat)
  with n(2) have "(of_nat n :: u32) \<noteq> 0"
    by (metis less_not_refl unat_0)
  then have nz: "(of_nat (len - i) :: u32) \<noteq> 0" unfolding n_def .
  obtain used1 where u1: "used1 = 4 \<or> used1 = 8"
    and draw: "cc3xx_lowlevel_rng_get_random ?c 0 (le_bytes32 0) 4 CC3XX_RNG_FAST
                 (example_fast_state ?c used)
               = Some (Returns (CC3XX_ERR_SUCCESS, [0, 0, 0, 0]) (example_fast_state ?c used1))"
    using Cons.prems(4) zero_draw_8 zero_draw_4 by blast
  from zero_draw_uint [OF draw nz, of 0]
  have step: "spec_shuffle_step ?c len CC3XX_RNG_FAST (\<lambda>i. 0)
                (Some (Returns xs (example_fast_state ?c used))) i
              = Some (Returns xs (example_fast_state ?c used1))"
    using i len by (simp add: spec_exchange_same)
  from Cons.IH [OF rest len len32 u1] step show ?case by simp
qed

text \<open>
  The claim as stated, for every length, fails at length 257. The fast generator is
  seeded with the all-zero state, so every draw is zero, is accepted, and exchanges an
  element with itself: the call returns the sequence that the initialising loop
  stored. Its element at index 256 is 0 (the byte store keeps the index modulo 256)
  and no element is 256, so the buffer is not a rearrangement of the identity sequence
  \<open>[0, 1, \<dots>, 256]\<close>, and it is not what the shuffle of the specification gives from the
  same draws, which is the identity sequence itself.
\<close>

theorem C8_counterexample:
  "\<exists>b s'. cc3xx_lowlevel_rng_get_random_permutation (example_config 16 True False)
             (replicate 257 7) 257 CC3XX_RNG_FAST (\<lambda>i. 0)
             (example_fast_state (example_config 16 True False) 8) = Some (Returns b s')
          \<and> length b = 257 \<and> b ! 255 = 255 \<and> b ! 256 = 0
          \<and> 256 \<notin> set (map unat b)
          \<and> mset (map unat b) \<noteq> mset [0..<257]
          \<and> (\<exists>s''. spec_random_permutation (example_config 16 True False) 257 CC3XX_RNG_FAST
                      (\<lambda>i. 0) (example_fast_state (example_config 16 True False) 8)
                    = Some (Returns [0..<257] s''))
          \<and> buffer_numbers 257
               (cc3xx_lowlevel_rng_get_random_permutation (example_config 16 True False)
                  (replicate 257 7) 257 CC3XX_RNG_FAST (\<lambda>i. 0)
                  (example_fast_state (example_config 16 True False) 8))
             \<noteq> spec_random_permutation (example_config 16 True False) 257 CC3XX_RNG_FAST
                 (\<lambda>i. 0) (example_fast_state (example_config 16 True False) 8)"
proof -
  let ?c = "example_config 16 True False"
  let ?b = "map of_nat [0..<257] :: u8 list"
  have dpa: "CC3XX_CONFIG_DPA_MITIGATIONS_ENABLE ?c" by (simp add: example_config_def)
  have fold: "cc3xx_lowlevel_rng_get_random_permutation ?c (replicate 257 7) 257 CC3XX_RNG_FAST
                (\<lambda>i. 0) (example_fast_state ?c 8)
              = foldl (spec_shuffle_step ?c 257 CC3XX_RNG_FAST (\<lambda>i. 0))
                  (Some (Returns (?b @ drop 257 (replicate 257 7)) (example_fast_state ?c 8)))
                  [0..<257]"
    using dpa by (rule get_random_permutation_fold) simp_all
  have "\<exists>used'. (used' = 4 \<or> used' = 8)
          \<and> foldl (spec_shuffle_step ?c 257 CC3XX_RNG_FAST (\<lambda>i. 0))
               (Some (Returns ?b (example_fast_state ?c 8))) [0..<257]
             = Some (Returns ?b (example_fast_state ?c used'))"
    by (rule zero_draw_fold) simp_all
  with fold obtain s' where
    run: "cc3xx_lowlevel_rng_get_random_permutation ?c (replicate 257 7) 257 CC3XX_RNG_FAST
            (\<lambda>i. 0) (example_fast_state ?c 8) = Some (Returns ?b s')"
    by auto
  have "\<exists>used'. (used' = 4 \<or> used' = 8)
          \<and> foldl (spec_shuffle_step ?c 257 CC3XX_RNG_FAST (\<lambda>i. 0))
               (Some (Returns [0..<257] (example_fast_state ?c 8))) [0..<257]
             = Some (Returns [0..<257] (example_fast_state ?c used'))"
    by (rule zero_draw_fold) simp_all
  then obtain s'' where
    spec: "spec_random_permutation ?c 257 CC3XX_RNG_FAST (\<lambda>i. 0) (example_fast_state ?c 8)
             = Some (Returns [0..<257] s'')"
    by (auto simp: spec_random_permutation_def)
  have l: "length ?b = 257" by simp
  have n255: "?b ! 255 = 255" by (simp del: upt_Suc)
  have n256: "?b ! 256 = 0" by (simp del: upt_Suc)
  have notin: "256 \<notin> set (map unat ?b)"
  proof
    assume "256 \<in> set (map unat ?b)"
    then obtain w :: u8 where "unat w = 256" by auto
    moreover have "unat w < 2 ^ 8" using unsigned_less [of w] by simp
    ultimately show False by simp
  qed
  have mem: "256 \<in> set [0..<257]" by simp
  with notin have ne: "mset (map unat ?b) \<noteq> mset [0..<257]"
    by (metis set_mset_mset)
  have diff: "buffer_numbers 257
               (cc3xx_lowlevel_rng_get_random_permutation ?c (replicate 257 7) 257 CC3XX_RNG_FAST
                  (\<lambda>i. 0) (example_fast_state ?c 8))
             \<noteq> spec_random_permutation ?c 257 CC3XX_RNG_FAST (\<lambda>i. 0) (example_fast_state ?c 8)"
  proof
    assume "buffer_numbers 257
               (cc3xx_lowlevel_rng_get_random_permutation ?c (replicate 257 7) 257 CC3XX_RNG_FAST
                  (\<lambda>i. 0) (example_fast_state ?c 8))
             = spec_random_permutation ?c 257 CC3XX_RNG_FAST (\<lambda>i. 0) (example_fast_state ?c 8)"
    then have "map unat (take 257 ?b) = [0..<257]"
      by (simp only: run spec buffer_numbers_def option.map outcome.map option.inject
            outcome.inject)
    then have "set (map unat ?b) = set [0..<257]"
      using l by simp
    with notin mem show False by blast
  qed
  have "cc3xx_lowlevel_rng_get_random_permutation ?c (replicate 257 7) 257 CC3XX_RNG_FAST
            (\<lambda>i. 0) (example_fast_state ?c 8) = Some (Returns ?b s')
          \<and> length ?b = 257 \<and> ?b ! 255 = 255 \<and> ?b ! 256 = 0
          \<and> 256 \<notin> set (map unat ?b)
          \<and> mset (map unat ?b) \<noteq> mset [0..<257]
          \<and> (\<exists>s''. spec_random_permutation ?c 257 CC3XX_RNG_FAST (\<lambda>i. 0)
                      (example_fast_state ?c 8) = Some (Returns [0..<257] s''))
          \<and> buffer_numbers 257
               (cc3xx_lowlevel_rng_get_random_permutation ?c (replicate 257 7) 257 CC3XX_RNG_FAST
                  (\<lambda>i. 0) (example_fast_state ?c 8))
             \<noteq> spec_random_permutation ?c 257 CC3XX_RNG_FAST (\<lambda>i. 0) (example_fast_state ?c 8)"
    using run l n255 n256 notin ne spec diff by (intro conjI exI)
  then show ?thesis by (intro exI)
qed


subsection \<open>Consecutive byte-fill calls\<close>

inductive_cases gen_yields_ConsE: "gen_yields p m fn g (b # bs)"

lemma round_up_4_nat:
  assumes "u + 3 < 2 ^ 32"
  shows "unat (round_up (of_nat u) 4) = ((u + 3) div 4) * 4"
proof -
  define x :: u32 where "x = of_nat (u + 3)"
  have x: "(of_nat u + 4 - 1 :: u32) = x" by (simp add: x_def)
  have ux: "unat x = u + 3"
    unfolding x_def using assms by (simp only: unat_of_nat) simp
  have md: "unat (x mod 4) = (u + 3) mod 4"
    using ux by (simp add: unat_mod)
  have le: "x mod 4 \<le> x"
    by (simp add: word_le_nat_alt ux md)
  have "unat (round_up (of_nat u) 4) = unat (x - x mod 4)"
    unfolding round_up_def x ..
  also have "\<dots> = (u + 3) - (u + 3) mod 4"
    using le by (simp add: unat_sub ux md)
  also have "\<dots> = ((u + 3) div 4) * 4"
    by (simp add: minus_mod_eq_div_mult)
  finally show ?thesis .
qed

lemma round_up_4_bounds:
  fixes u m :: nat
  assumes "u \<le> m" "m mod 4 = 0" "m + 3 < 2 ^ 32"
  shows "u \<le> ((u + 3) div 4) * 4" "((u + 3) div 4) * 4 \<le> m" "((u + 3) div 4) * 4 - u \<le> 3"
    "(((u + 3) div 4) * 4) mod 4 = 0"
  using assms by presburger+

lemma write_bytes_Nil: "write_bytes dst pos [] = dst"
  by (simp add: write_bytes_def)

lemma write_bytes_append:
  "pos + length a + length b \<le> length dst \<Longrightarrow>
   write_bytes (write_bytes dst pos a) (pos + length a) b = write_bytes dst pos (a @ b)"
proof -
  assume le: "pos + length a + length b \<le> length dst"
  let ?d = "take pos dst @ a @ drop (pos + length a) dst"
  have t: "take (pos + length a) ?d = take pos dst @ a"
    using le by simp
  have "drop (pos + length a + length b) ?d = drop (length b) (drop (pos + length a) dst)"
    using le by simp
  then have d: "drop (pos + length a + length b) ?d = drop (pos + length a + length b) dst"
    by (simp add: add.commute)
  have "write_bytes ?d (pos + length a) b = (take pos dst @ a) @ b
          @ drop (pos + length a + length b) dst"
    unfolding write_bytes_def t d ..
  then show ?thesis
    by (simp add: write_bytes_def add.assoc)
qed

lemma length_write_bytes:
  "pos + length a \<le> length dst \<Longrightarrow> length (write_bytes dst pos a) = length dst"
  by (simp add: write_bytes_def)

lemma pool_set_simps:
  "used_idx p (set_used_idx p n s) = n"
  "random_buf p (set_used_idx p n s) = random_buf p s"
  "gen_view p (set_used_idx p n s) = gen_view p s"
  "sample_cnt1_reads (set_used_idx p n s) = sample_cnt1_reads s"
  "reg_writes (set_used_idx p n s) = reg_writes s"
  "random_buf p (set_random_buf p b s) = b"
  "used_idx p (set_random_buf p b s) = used_idx p s"
  "gen_view p (set_random_buf p b s) = gen_view p s"
  "sample_cnt1_reads (set_random_buf p b s) = sample_cnt1_reads s"
  "reg_writes (set_random_buf p b s) = reg_writes s"
  by (cases p; simp)+

lemma rng_copy_eq:
  assumes "al \<longrightarrow> m mod 4 = 0 \<and> used_idx p s mod 4 = 0 \<and> len mod 4 = 0"
  shows "rng_copy p m al dst pos len s
       = (write_bytes dst pos (take (min (m - used_idx p s) len) (drop (used_idx p s) (random_buf p s))),
          pos + min (m - used_idx p s) len, len - min (m - used_idx p s) len,
          set_used_idx p (used_idx p s + min (m - used_idx p s) len) s)"
proof -
  let ?c = "min (m - used_idx p s) len"
  have c: "(if m - used_idx p s < len then m - used_idx p s else len) = ?c"
    by (simp add: min_def)
  have "al \<Longrightarrow> 4 * (?c div 4) = ?c \<and> 4 * (used_idx p s div 4) = used_idx p s"
    using assms by (auto simp: min_def)
  then show ?thesis
    by (cases al) (simp_all add: rng_copy_def Let_def c)
qed


lemma gen_yields_lengths:
  "gen_yields p m fn g blks \<Longrightarrow> \<forall>b \<in> set blks. length b = m"
  by (induction rule: gen_yields.induct) auto

lemma length_concat_blocks:
  "\<forall>b \<in> set blks. length b = m \<Longrightarrow> length (concat blks) = m * length blks"
  by (induction blks) auto

lemma rng_fill_loop_stream:
  assumes m: "0 < m"
  shows "gen_yields p m fn (gen_view p s) blks \<Longrightarrow> length (random_buf p s) = m
   \<Longrightarrow> used_idx p s \<le> m
   \<Longrightarrow> (al \<longrightarrow> m mod 4 = 0 \<and> used_idx p s mod 4 = 0 \<and> len mod 4 = 0)
   \<Longrightarrow> len \<le> length (pool_stream p s blks) \<Longrightarrow> pos + len \<le> length dst
   \<Longrightarrow> \<exists>s' k. rng_fill_loop p m fn al dst pos len s
               = Some (Returns (CC3XX_ERR_SUCCESS,
                                write_bytes dst pos (take len (pool_stream p s blks))) s')
             \<and> gen_yields p m fn (gen_view p s') (drop k blks)
             \<and> length (random_buf p s') = m \<and> used_idx p s' \<le> m
             \<and> pool_stream p s' (drop k blks) = drop len (pool_stream p s blks)
             \<and> sample_cnt1_reads s' = sample_cnt1_reads s
             \<and> (al \<longrightarrow> used_idx p s' mod 4 = 0)"
proof (induction len arbitrary: s dst pos blks rule: less_induct)
  case (less len)
  note loop = rng_fill_loop.simps [of p m fn al dst pos len s]
  show ?case
  proof (cases "len = 0")
    case True
    have "rng_fill_loop p m fn al dst pos len s
            = Some (Returns (CC3XX_ERR_SUCCESS,
                             write_bytes dst pos (take len (pool_stream p s blks))) s)"
      by (subst rng_fill_loop.simps) (simp add: True write_bytes_Nil)
    moreover have "gen_yields p m fn (gen_view p s) (drop 0 blks)"
      using less.prems(1) by simp
    moreover have "pool_stream p s (drop 0 blks) = drop len (pool_stream p s blks)"
      using True by simp
    ultimately have "rng_fill_loop p m fn al dst pos len s
               = Some (Returns (CC3XX_ERR_SUCCESS,
                                write_bytes dst pos (take len (pool_stream p s blks))) s)
             \<and> gen_yields p m fn (gen_view p s) (drop 0 blks)
             \<and> length (random_buf p s) = m \<and> used_idx p s \<le> m
             \<and> pool_stream p s (drop 0 blks) = drop len (pool_stream p s blks)
             \<and> sample_cnt1_reads s = sample_cnt1_reads s
             \<and> (al \<longrightarrow> used_idx p s mod 4 = 0)"
      using less.prems(2,3,4) by simp
    then show ?thesis by (intro exI)
  next
    case nz: False
    have step: "\<exists>s' k. rng_fill_loop p m fn al dst pos len sx
               = Some (Returns (CC3XX_ERR_SUCCESS,
                                write_bytes dst pos (take len (pool_stream p sx bx))) s')
             \<and> gen_yields p m fn (gen_view p s') (drop k bx)
             \<and> length (random_buf p s') = m \<and> used_idx p s' \<le> m
             \<and> pool_stream p s' (drop k bx) = drop len (pool_stream p sx bx)
             \<and> sample_cnt1_reads s' = sample_cnt1_reads sx
             \<and> (al \<longrightarrow> used_idx p s' mod 4 = 0)"
      if gen: "gen_yields p m fn (gen_view p sx) bx" and lb: "length (random_buf p sx) = m"
        and lt: "used_idx p sx < m"
        and al: "al \<longrightarrow> m mod 4 = 0 \<and> used_idx p sx mod 4 = 0 \<and> len mod 4 = 0"
        and en: "len \<le> length (pool_stream p sx bx)" and fit: "pos + len \<le> length dst"
      for sx bx
    proof -
      let ?u = "used_idx p sx"
      let ?c = "min (m - ?u) len"
      let ?S = "pool_stream p sx bx"
      let ?s3 = "set_used_idx p (?u + ?c) sx"
      let ?d3 = "write_bytes dst pos (take ?c (drop ?u (random_buf p sx)))"
      have c_pos: "0 < ?c" using lt nz by simp
      have c_le: "?c \<le> len" "?c \<le> m - ?u" by simp_all
      have tk: "take ?c (drop ?u (random_buf p sx)) = take ?c ?S"
        using lb c_le by (simp add: pool_stream_def)
      have ltk: "length (take ?c ?S) = ?c"
        using en c_le by simp
      have s3_stream: "pool_stream p ?s3 bx = drop ?c ?S"
        using lb c_le by (simp add: pool_stream_def pool_set_simps add.commute)
      have unfold: "rng_fill_loop p m fn al dst pos len sx
                      = rng_fill_loop p m fn al ?d3 (pos + ?c) (len - ?c) ?s3"
        using nz lt by (subst rng_fill_loop.simps) (simp add: rng_copy_eq [OF al])
      have al3: "al \<longrightarrow> m mod 4 = 0 \<and> used_idx p ?s3 mod 4 = 0 \<and> (len - ?c) mod 4 = 0"
      proof
        assume al
        with al have a: "m mod 4 = 0" "?u mod 4 = 0" "len mod 4 = 0" by simp_all
        then have "?c mod 4 = 0" by (auto simp: min_def)
        with a show "m mod 4 = 0 \<and> used_idx p ?s3 mod 4 = 0 \<and> (len - ?c) mod 4 = 0"
          by (simp add: pool_set_simps) presburger
      qed
      have "\<exists>s' k. rng_fill_loop p m fn al ?d3 (pos + ?c) (len - ?c) ?s3
               = Some (Returns (CC3XX_ERR_SUCCESS,
                                write_bytes ?d3 (pos + ?c)
                                  (take (len - ?c) (pool_stream p ?s3 bx))) s')
             \<and> gen_yields p m fn (gen_view p s') (drop k bx)
             \<and> length (random_buf p s') = m \<and> used_idx p s' \<le> m
             \<and> pool_stream p s' (drop k bx) = drop (len - ?c) (pool_stream p ?s3 bx)
             \<and> sample_cnt1_reads s' = sample_cnt1_reads ?s3
             \<and> (al \<longrightarrow> used_idx p s' mod 4 = 0)"
      proof (rule less.IH)
        show "len - ?c < len" using c_pos nz by simp
        show "gen_yields p m fn (gen_view p ?s3) bx" using gen by (simp add: pool_set_simps)
        show "length (random_buf p ?s3) = m" using lb by (simp add: pool_set_simps)
        show "used_idx p ?s3 \<le> m" using lt by (simp add: pool_set_simps)
        show "al \<longrightarrow> m mod 4 = 0 \<and> used_idx p ?s3 mod 4 = 0 \<and> (len - ?c) mod 4 = 0"
          by (rule al3)
        show "len - ?c \<le> length (pool_stream p ?s3 bx)"
          using en by (simp add: s3_stream)
        show "pos + ?c + (len - ?c) \<le> length ?d3"
          using fit c_le ltk by (simp add: tk length_write_bytes)
      qed
      then obtain s' k where
        run: "rng_fill_loop p m fn al ?d3 (pos + ?c) (len - ?c) ?s3
               = Some (Returns (CC3XX_ERR_SUCCESS,
                                write_bytes ?d3 (pos + ?c)
                                  (take (len - ?c) (pool_stream p ?s3 bx))) s')"
        and rest: "gen_yields p m fn (gen_view p s') (drop k bx)"
          "length (random_buf p s') = m" "used_idx p s' \<le> m"
          "pool_stream p s' (drop k bx) = drop (len - ?c) (pool_stream p ?s3 bx)"
          "sample_cnt1_reads s' = sample_cnt1_reads ?s3"
          "al \<longrightarrow> used_idx p s' mod 4 = 0"
        by (elim exE conjE)
      have "write_bytes ?d3 (pos + ?c) (take (len - ?c) (pool_stream p ?s3 bx))
              = write_bytes (write_bytes dst pos (take ?c ?S)) (pos + length (take ?c ?S))
                  (take (len - ?c) (drop ?c ?S))"
        by (simp only: tk s3_stream ltk)
      also have "\<dots> = write_bytes dst pos (take ?c ?S @ take (len - ?c) (drop ?c ?S))"
        using fit c_le ltk en by (intro write_bytes_append) simp
      also have "take ?c ?S @ take (len - ?c) (drop ?c ?S) = take len ?S"
        using c_le by (metis le_add_diff_inverse take_add)
      finally have out: "write_bytes ?d3 (pos + ?c) (take (len - ?c) (pool_stream p ?s3 bx))
                           = write_bytes dst pos (take len ?S)" .
      have "drop (len - ?c) (pool_stream p ?s3 bx) = drop len ?S"
        using c_le by (simp add: s3_stream)
      with unfold run out rest show ?thesis
        by (auto simp: pool_set_simps)
    qed
    show ?thesis
    proof (cases "used_idx p s = m")
      case False
      with less.prems(3) have "used_idx p s < m" by simp
      from step [OF less.prems(1,2) this less.prems(4,5,6)] show ?thesis .
    next
      case full: True
      from less.prems(2,5) full nz have "blks \<noteq> []"
        by (auto simp: pool_stream_def)
      then obtain b bs where blks: "blks = b # bs" by (cases blks) auto
      from less.prems(1) [unfolded blks]
      obtain g' where lb: "length b = m"
        and fn: "\<forall>t. gen_view p t = gen_view p s \<and> length (random_buf p t) = m \<longrightarrow>
                  (\<exists>t'. fn (random_buf p t) (m div 4) t
                          = Some (Returns (CC3XX_ERR_SUCCESS, b) t')
                        \<and> gen_view p t' = g' \<and> sample_cnt1_reads t' = sample_cnt1_reads t)"
        and gen': "gen_yields p m fn g' bs"
        by (rule gen_yields_ConsE) blast
      from fn less.prems(2) obtain t' where
        call: "fn (random_buf p s) (m div 4) s = Some (Returns (CC3XX_ERR_SUCCESS, b) t')"
        and view: "gen_view p t' = g'" and cnt: "sample_cnt1_reads t' = sample_cnt1_reads s"
        by blast
      let ?s2 = "set_used_idx p 0 (set_random_buf p b t')"
      have l: "rng_fill_loop p m fn al dst pos len s
                 = (case rng_copy p m al dst pos len ?s2 of
                      (dst', pos', len', s3) \<Rightarrow> rng_fill_loop p m fn al dst' pos' len' s3)"
        using nz full call by (subst rng_fill_loop.simps) simp
      have r: "rng_fill_loop p m fn al dst pos len ?s2
                 = (case rng_copy p m al dst pos len ?s2 of
                      (dst', pos', len', s3) \<Rightarrow> rng_fill_loop p m fn al dst' pos' len' s3)"
        using nz m by (subst rng_fill_loop.simps) (simp add: pool_set_simps)
      have eq: "rng_fill_loop p m fn al dst pos len s = rng_fill_loop p m fn al dst pos len ?s2"
        by (simp only: l r)
      have s2: "gen_yields p m fn (gen_view p ?s2) bs" "length (random_buf p ?s2) = m"
        "used_idx p ?s2 < m"
        using gen' view lb m by (simp_all add: pool_set_simps)
      have al2: "al \<longrightarrow> m mod 4 = 0 \<and> used_idx p ?s2 mod 4 = 0 \<and> len mod 4 = 0"
        using less.prems(4) by (simp add: pool_set_simps)
      have st: "pool_stream p ?s2 bs = pool_stream p s blks"
        using full less.prems(2) by (simp add: pool_stream_def pool_set_simps blks)
      have en2: "len \<le> length (pool_stream p ?s2 bs)"
        using less.prems(5) st by simp
      from step [OF s2 al2 en2 less.prems(6)]
      obtain s' k where
        run: "rng_fill_loop p m fn al dst pos len ?s2
               = Some (Returns (CC3XX_ERR_SUCCESS,
                                write_bytes dst pos (take len (pool_stream p ?s2 bs))) s')"
        and rest: "gen_yields p m fn (gen_view p s') (drop k bs)"
        "length (random_buf p s') = m" "used_idx p s' \<le> m"
        "pool_stream p s' (drop k bs) = drop len (pool_stream p ?s2 bs)"
        "sample_cnt1_reads s' = sample_cnt1_reads ?s2"
        "al \<longrightarrow> used_idx p s' mod 4 = 0"
        by (elim exE conjE)
      have c2: "sample_cnt1_reads ?s2 = sample_cnt1_reads s"
        using cnt by (simp add: pool_set_simps)
      have "rng_fill_loop p m fn al dst pos len s
               = Some (Returns (CC3XX_ERR_SUCCESS,
                                write_bytes dst pos (take len (pool_stream p s blks))) s')
             \<and> gen_yields p m fn (gen_view p s') (drop (Suc k) blks)
             \<and> length (random_buf p s') = m \<and> used_idx p s' \<le> m
             \<and> pool_stream p s' (drop (Suc k) blks) = drop len (pool_stream p s blks)
             \<and> sample_cnt1_reads s' = sample_cnt1_reads s
             \<and> (al \<longrightarrow> used_idx p s' mod 4 = 0)"
        using run rest unfolding eq st c2 blks by simp
      then show ?thesis by (intro exI)
    qed
  qed
qed


lemma length_le_bytes32: "length (le_bytes32 w) = 4"
  by (simp add: le_bytes32_def)

lemma length_le_bytes64: "length (le_bytes64 w) = 8"
  by (simp add: le_bytes64_def)

lemma length_concat_le_bytes32: "length (concat (map le_bytes32 ws)) = 4 * length ws"
  by (induction ws) (simp_all add: length_le_bytes32)

lemma trng_get_random_ready:
  assumes "rng_isr_reads t = r1 # r2 # rs" "r1 AND 0xE = 0" "r2 AND 0x1 \<noteq> 0"
    and "CC3XX_CONFIG_RNG_MAX_ATTEMPTS cfg \<noteq> 0"
    and "EHR_DATA_WORDS cfg \<le> length (ehr_data_reads t)"
  shows "trng_get_random cfg buf (EHR_DATA_WORDS cfg) t
       = Some (Returns
           (CC3XX_ERR_SUCCESS,
            concat (map le_bytes32 (take (EHR_DATA_WORDS cfg) (ehr_data_reads t)))
              @ drop (4 * EHR_DATA_WORDS cfg) buf)
           (t\<lparr>rng_isr_reads := rs,
              reg_writes := reg_writes t @ [(RST_BITS_COUNTER, 1), (RNG_ICR, 0xFFFFFFFF)],
              ehr_data_reads := drop (EHR_DATA_WORDS cfg) (ehr_data_reads t)\<rparr>))"
  using assms by (auto simp: trng_get_random_def reg_write_def)

lemma trng_gen_yields:
  "trng_ready cfg k s \<Longrightarrow> 0 < EHR_DATA_WORDS cfg \<Longrightarrow>
   gen_yields ENTROPY_POOL (4 * EHR_DATA_WORDS cfg) (trng_get_random cfg)
     (gen_view ENTROPY_POOL s) (trng_blocks (EHR_DATA_WORDS cfg) k (ehr_data_reads s))"
proof (induction k arbitrary: s)
  case 0
  show ?case by (simp add: gen_yields_Nil)
next
  case (Suc k)
  let ?E = "EHR_DATA_WORDS cfg"
  from Suc.prems(1) have max: "CC3XX_CONFIG_RNG_MAX_ATTEMPTS cfg \<noteq> 0"
    and li: "2 * Suc k \<le> length (rng_isr_reads s)"
    and ok: "\<forall>r \<in> set (take (2 * Suc k) (rng_isr_reads s)). r AND 0xE = 0 \<and> r AND 0x1 \<noteq> 0"
    and le: "Suc k * ?E \<le> length (ehr_data_reads s)"
    by (simp_all add: trng_ready_def)
  from li obtain r1 r2 rs where isr: "rng_isr_reads s = r1 # r2 # rs"
    by (cases "rng_isr_reads s"; cases "tl (rng_isr_reads s)") auto
  from ok isr have r: "r1 AND 0xE = 0" "r2 AND 0x1 \<noteq> 0"
    and ok': "\<forall>r \<in> set (take (2 * k) rs). r AND 0xE = 0 \<and> r AND 0x1 \<noteq> 0"
    by auto
  from le have le1: "?E \<le> length (ehr_data_reads s)"
    and le': "k * ?E \<le> length (drop ?E (ehr_data_reads s))"
    by simp_all
  let ?s' = "s\<lparr>rng_isr_reads := rs, ehr_data_reads := drop ?E (ehr_data_reads s)\<rparr>"
  let ?b = "concat (map le_bytes32 (take ?E (ehr_data_reads s)))"
  have ready': "trng_ready cfg k ?s'"
    using max li isr ok' le' by (simp add: trng_ready_def)
  have lb: "length ?b = 4 * ?E"
    using le1 by (simp add: length_concat_le_bytes32)
  have call: "\<forall>t. gen_view ENTROPY_POOL t = gen_view ENTROPY_POOL s
                 \<and> length (random_buf ENTROPY_POOL t) = 4 * ?E \<longrightarrow>
        (\<exists>t'. trng_get_random cfg (random_buf ENTROPY_POOL t) (4 * ?E div 4) t
                 = Some (Returns (CC3XX_ERR_SUCCESS, ?b) t')
              \<and> gen_view ENTROPY_POOL t' = gen_view ENTROPY_POOL ?s'
              \<and> sample_cnt1_reads t' = sample_cnt1_reads t)"
  proof (intro allI impI)
    fix t
    assume a: "gen_view ENTROPY_POOL t = gen_view ENTROPY_POOL s
                 \<and> length (random_buf ENTROPY_POOL t) = 4 * ?E"
    then have ti: "rng_isr_reads t = r1 # r2 # rs" and te: "ehr_data_reads t = ehr_data_reads s"
      using isr by simp_all
    from trng_get_random_ready [OF ti r max, of "entropy_buf t"] le1 te a
    show "\<exists>t'. trng_get_random cfg (random_buf ENTROPY_POOL t) (4 * ?E div 4) t
                 = Some (Returns (CC3XX_ERR_SUCCESS, ?b) t')
              \<and> gen_view ENTROPY_POOL t' = gen_view ENTROPY_POOL ?s'
              \<and> sample_cnt1_reads t' = sample_cnt1_reads t"
      by simp
  qed
  from Suc.IH [OF ready' Suc.prems(2)]
  have "gen_yields ENTROPY_POOL (4 * ?E) (trng_get_random cfg) (gen_view ENTROPY_POOL ?s')
          (trng_blocks ?E k (drop ?E (ehr_data_reads s)))"
    by simp
  from gen_yields_Cons [OF lb call this] show ?case by simp
qed

lemma lfsr_gen_yields:
  "lfsr_seed_done s \<Longrightarrow>
   gen_yields LFSR_POOL lfsr_buf_size (lfsr_get_random cfg)
     (gen_view LFSR_POOL s) (xorshift_blocks k (lfsr_state s))"
proof (induction k arbitrary: s)
  case 0
  show ?case by (simp add: gen_yields_Nil)
next
  case (Suc k)
  let ?s' = "s\<lparr>lfsr_state := snd (xorshift_step (lfsr_state s))\<rparr>"
  let ?b = "le_bytes64 (fst (xorshift_step (lfsr_state s)))"
  have lb: "length ?b = lfsr_buf_size"
    by (simp add: length_le_bytes64 lfsr_buf_size_def)
  have call: "\<forall>t. gen_view LFSR_POOL t = gen_view LFSR_POOL s
                 \<and> length (random_buf LFSR_POOL t) = lfsr_buf_size \<longrightarrow>
        (\<exists>t'. lfsr_get_random cfg (random_buf LFSR_POOL t) (lfsr_buf_size div 4) t
                 = Some (Returns (CC3XX_ERR_SUCCESS, ?b) t')
              \<and> gen_view LFSR_POOL t' = gen_view LFSR_POOL ?s'
              \<and> sample_cnt1_reads t' = sample_cnt1_reads t)"
  proof (intro allI impI)
    fix t
    assume a: "gen_view LFSR_POOL t = gen_view LFSR_POOL s
                 \<and> length (random_buf LFSR_POOL t) = lfsr_buf_size"
    with Suc.prems have "lfsr_seed_done t" and "lfsr_state t = lfsr_state s" by simp_all
    with lfsr_get_random_seeded [of t cfg "lfsr_buf t"] a
    show "\<exists>t'. lfsr_get_random cfg (random_buf LFSR_POOL t) (lfsr_buf_size div 4) t
                 = Some (Returns (CC3XX_ERR_SUCCESS, ?b) t')
              \<and> gen_view LFSR_POOL t' = gen_view LFSR_POOL ?s'
              \<and> sample_cnt1_reads t' = sample_cnt1_reads t"
      by (simp add: lfsr_buf_size_def)
  qed
  from Suc.prems have "lfsr_seed_done ?s'" by simp
  from Suc.IH [OF this]
  have "gen_yields LFSR_POOL lfsr_buf_size (lfsr_get_random cfg) (gen_view LFSR_POOL ?s')
          (xorshift_blocks k (snd (xorshift_step (lfsr_state s))))"
    by simp
  from gen_yields_Cons [OF lb call this] show ?case by simp
qed

lemma trng_init_wait_found:
  "rate \<in> set rs \<Longrightarrow> rate = CC3XX_CONFIG_RNG_SUBSAMPLING_RATE cfg \<Longrightarrow>
   \<exists>ws'. trng_init_wait cfg rs ws = Some (tl (dropWhile (\<lambda>r. r \<noteq> rate) rs), ws')"
  by (induction rs arbitrary: ws) (auto simp: Let_def)

lemma count_list_after_first:
  "x \<in> set xs \<Longrightarrow> Suc (count_list (tl (dropWhile (\<lambda>r. r \<noteq> x) xs)) x) = count_list xs x"
  by (induction xs) auto

lemma trng_init_found:
  assumes "CC3XX_CONFIG_RNG_SUBSAMPLING_RATE cfg \<in> set (sample_cnt1_reads s)"
  shows "\<exists>s'. trng_init cfg s = Some (Returns CC3XX_ERR_SUCCESS s')
           \<and> gen_view p s' = gen_view p s \<and> random_buf p s' = random_buf p s
           \<and> used_idx p s' = used_idx p s
           \<and> Suc (count_list (sample_cnt1_reads s') (CC3XX_CONFIG_RNG_SUBSAMPLING_RATE cfg))
               = count_list (sample_cnt1_reads s) (CC3XX_CONFIG_RNG_SUBSAMPLING_RATE cfg)"
proof -
  let ?s1 = "reg_write RNG_SW_RESET 1 (reg_write RNG_CLK_ENABLE 1 s)"
  have "sample_cnt1_reads ?s1 = sample_cnt1_reads s" by (simp add: reg_write_def)
  with assms trng_init_wait_found [of _ "sample_cnt1_reads ?s1" cfg "reg_writes ?s1"]
  obtain ws' where "trng_init_wait cfg (sample_cnt1_reads ?s1) (reg_writes ?s1)
     = Some (tl (dropWhile (\<lambda>r. r \<noteq> CC3XX_CONFIG_RNG_SUBSAMPLING_RATE cfg)
               (sample_cnt1_reads s)), ws')"
    by auto
  then show ?thesis
    using count_list_after_first [OF assms]
    by (cases p) (simp_all add: trng_init_def Let_def reg_write_def)
qed

lemma trng_finish_frame:
  "gen_view p (snd (trng_finish s)) = gen_view p s"
  "random_buf p (snd (trng_finish s)) = random_buf p s"
  "used_idx p (snd (trng_finish s)) = used_idx p s"
  "sample_cnt1_reads (snd (trng_finish s)) = sample_cnt1_reads s"
  "fst (trng_finish s) = CC3XX_ERR_SUCCESS"
  by (cases p; simp add: trng_finish_def reg_write_def)+


lemma align_discard_bounds:
  fixes u m :: nat
  assumes "u \<le> m" "m mod 4 = 0" "m + 3 < 2 ^ 32"
  shows "align_discard buf len u \<le> 3" "u + align_discard buf len u \<le> m"
    "buf AND 0x3 = 0 \<and> len mod 4 = 0 \<longrightarrow> (u + align_discard buf len u) mod 4 = 0"
proof -
  from assms have "u + 3 < 2 ^ 32" by simp
  from round_up_4_nat [OF this] round_up_4_bounds [OF assms]
  show "align_discard buf len u \<le> 3" "u + align_discard buf len u \<le> m"
    "buf AND 0x3 = 0 \<and> len mod 4 = 0 \<longrightarrow> (u + align_discard buf len u) mod 4 = 0"
    by (simp_all add: align_discard_def)
qed

lemma rng_get_random_from_unfold:
  assumes "al = (buf AND 0x3 = 0 \<and> len mod 4 = 0)"
    and "s1 = (if al then set_used_idx p (unat (round_up (of_nat (used_idx p s)) 4)) s else s)"
    and "req = (m - used_idx p s1 < len \<and> quality = CC3XX_RNG_CRYPTOGRAPHICALLY_SECURE)"
  shows "rng_get_random_from cfg p m fn buf dst len quality s =
     (case (if req then trng_init cfg s1 else Some (Returns CC3XX_ERR_SUCCESS s1)) of
        None \<Rightarrow> None
      | Some (AssertFailed s2) \<Rightarrow> Some (AssertFailed s2)
      | Some (FatalHalt s2) \<Rightarrow> Some (FatalHalt s2)
      | Some (Returns err s2) \<Rightarrow>
          if err \<noteq> CC3XX_ERR_SUCCESS then Some (Returns (err, dst) s2)
          else (case rng_fill_loop p m fn al dst 0 len s2 of
                  None \<Rightarrow> None
                | Some (AssertFailed s3) \<Rightarrow> Some (AssertFailed s3)
                | Some (FatalHalt s3) \<Rightarrow> Some (FatalHalt s3)
                | Some (Returns (err', dst') s3) \<Rightarrow>
                    if req
                    then (case trng_finish s3 of (err'', s4) \<Rightarrow> Some (Returns (err'', dst') s4))
                    else Some (Returns (err', dst') s3)))"
  unfolding assms rng_get_random_from_def Let_def ..

lemma rng_get_random_from_stream:
  assumes m: "0 < m" "m mod 4 = 0" "m + 3 < 2 ^ 32"
    and gen: "gen_yields p m fn (gen_view p s) blks"
    and wf: "length (random_buf p s) = m" "used_idx p s \<le> m"
    and init: "quality = CC3XX_RNG_CRYPTOGRAPHICALLY_SECURE \<longrightarrow>
               CC3XX_CONFIG_RNG_SUBSAMPLING_RATE cfg \<in> set (sample_cnt1_reads s)"
    and enough: "align_discard buf len (used_idx p s) + len \<le> length (pool_stream p s blks)"
    and fit: "len \<le> length dst"
  shows "\<exists>s' k. rng_get_random_from cfg p m fn buf dst len quality s
           = Some (Returns (CC3XX_ERR_SUCCESS,
                take len (drop (align_discard buf len (used_idx p s)) (pool_stream p s blks))
                  @ drop len dst) s')
         \<and> gen_yields p m fn (gen_view p s') (drop k blks)
         \<and> length (random_buf p s') = m \<and> used_idx p s' \<le> m
         \<and> pool_stream p s' (drop k blks)
             = drop (align_discard buf len (used_idx p s) + len) (pool_stream p s blks)
         \<and> count_list (sample_cnt1_reads s) (CC3XX_CONFIG_RNG_SUBSAMPLING_RATE cfg)
             \<le> Suc (count_list (sample_cnt1_reads s') (CC3XX_CONFIG_RNG_SUBSAMPLING_RATE cfg))"
proof -
  define al where "al = (buf AND 0x3 = 0 \<and> len mod 4 = 0)"
  let ?u = "used_idx p s"
  let ?d = "align_discard buf len ?u"
  let ?rate = "CC3XX_CONFIG_RNG_SUBSAMPLING_RATE cfg"
  let ?S = "pool_stream p s blks"
  define s1 where "s1 = (if al then set_used_idx p (unat (round_up (of_nat ?u) 4)) s else s)"
  define req where
    "req = (m - used_idx p s1 < len \<and> quality = CC3XX_RNG_CRYPTOGRAPHICALLY_SECURE)"
  note unfold = rng_get_random_from_unfold [OF al_def s1_def req_def, of cfg fn dst]
  note db = align_discard_bounds [OF wf(2) m(2,3), of buf len]
  have dd: "?d = (if al then unat (round_up (of_nat ?u) 4) - ?u else 0)"
    by (simp add: align_discard_def al_def)
  have ru: "al \<Longrightarrow> unat (round_up (of_nat ?u) 4) = ?u + ?d"
  proof -
    assume a: al
    from wf(2) m(3) have "?u + 3 < 2 ^ 32" by simp
    from round_up_4_nat [OF this] round_up_4_bounds(1) [OF wf(2) m(2,3)] a
    show ?thesis by (simp add: dd)
  qed
  have nal: "\<not> al \<Longrightarrow> ?d = 0" by (simp add: dd)
  have "used_idx p s1 = ?u + ?d \<and> random_buf p s1 = random_buf p s
    \<and> gen_view p s1 = gen_view p s \<and> sample_cnt1_reads s1 = sample_cnt1_reads s"
  proof (cases al)
    case True
    then have "s1 = set_used_idx p (?u + ?d) s" using ru by (simp add: s1_def)
    then show ?thesis by (simp only: pool_set_simps simp_thms)
  next
    case False
    then have "s1 = s" "?d = 0" using nal by (simp_all add: s1_def)
    then show ?thesis by (simp only:) simp
  qed
  then have s1: "used_idx p s1 = ?u + ?d" "random_buf p s1 = random_buf p s"
    "gen_view p s1 = gen_view p s" "sample_cnt1_reads s1 = sample_cnt1_reads s"
    by blast+
  have S1: "pool_stream p s1 blks = drop ?d ?S"
    using db(2) wf(1) unfolding pool_stream_def s1 by (simp add: add.commute)
  have "\<exists>s2. (if req then trng_init cfg s1 else Some (Returns CC3XX_ERR_SUCCESS s1))
               = Some (Returns CC3XX_ERR_SUCCESS s2)
             \<and> gen_view p s2 = gen_view p s \<and> random_buf p s2 = random_buf p s
             \<and> used_idx p s2 = ?u + ?d
             \<and> count_list (sample_cnt1_reads s) ?rate
                 \<le> Suc (count_list (sample_cnt1_reads s2) ?rate)"
  proof (cases req)
    case True
    with init s1(4) have "?rate \<in> set (sample_cnt1_reads s1)" by (simp add: req_def)
    from trng_init_found [OF this, of p] True s1 show ?thesis
      by (simp only: if_True) auto
  next
    case False
    then show ?thesis using s1 by (simp only: if_False) auto
  qed
  then obtain s2 where
    i: "(if req then trng_init cfg s1 else Some (Returns CC3XX_ERR_SUCCESS s1))
               = Some (Returns CC3XX_ERR_SUCCESS s2)"
    and s2: "gen_view p s2 = gen_view p s" "random_buf p s2 = random_buf p s"
      "used_idx p s2 = ?u + ?d"
    and c2: "count_list (sample_cnt1_reads s) ?rate
                 \<le> Suc (count_list (sample_cnt1_reads s2) ?rate)"
    by (elim exE conjE)
  have S2: "pool_stream p s2 blks = drop ?d ?S"
    using S1 s1 s2 by (simp add: pool_stream_def)
  have "\<exists>s3 k. rng_fill_loop p m fn al dst 0 len s2
               = Some (Returns (CC3XX_ERR_SUCCESS,
                                write_bytes dst 0 (take len (pool_stream p s2 blks))) s3)
             \<and> gen_yields p m fn (gen_view p s3) (drop k blks)
             \<and> length (random_buf p s3) = m \<and> used_idx p s3 \<le> m
             \<and> pool_stream p s3 (drop k blks) = drop len (pool_stream p s2 blks)
             \<and> sample_cnt1_reads s3 = sample_cnt1_reads s2
             \<and> (al \<longrightarrow> used_idx p s3 mod 4 = 0)"
  proof (rule rng_fill_loop_stream [OF m(1)])
    show "gen_yields p m fn (gen_view p s2) blks" using gen s2 by simp
    show "length (random_buf p s2) = m" using wf s2 by simp
    show "used_idx p s2 \<le> m" using db(2) s2 by simp
    show "al \<longrightarrow> m mod 4 = 0 \<and> used_idx p s2 mod 4 = 0 \<and> len mod 4 = 0"
      using db(3) m(2) s2 by (simp add: al_def)
    show "len \<le> length (pool_stream p s2 blks)" using enough by (simp add: S2)
    show "0 + len \<le> length dst" using fit by simp
  qed
  then obtain s3 k where
    l: "rng_fill_loop p m fn al dst 0 len s2
               = Some (Returns (CC3XX_ERR_SUCCESS,
                                write_bytes dst 0 (take len (pool_stream p s2 blks))) s3)"
    and s3: "gen_yields p m fn (gen_view p s3) (drop k blks)"
      "length (random_buf p s3) = m" "used_idx p s3 \<le> m"
      "pool_stream p s3 (drop k blks) = drop len (pool_stream p s2 blks)"
      "sample_cnt1_reads s3 = sample_cnt1_reads s2"
    by (elim exE conjE)
  have out: "write_bytes dst 0 (take len (pool_stream p s2 blks))
               = take len (drop ?d ?S) @ drop len dst"
    using enough by (simp add: write_bytes_def S2)
  define s4 where "s4 = (if req then snd (trng_finish s3) else s3)"
  have res: "rng_get_random_from cfg p m fn buf dst len quality s
           = Some (Returns (CC3XX_ERR_SUCCESS, take len (drop ?d ?S) @ drop len dst) s4)"
  proof -
    have l': "rng_fill_loop p m fn al dst 0 len s2
               = Some (Returns (CC3XX_ERR_SUCCESS, take len (drop ?d ?S) @ drop len dst) s3)"
      using l out by simp
    show ?thesis
    proof (cases req)
      case True
      with i have "trng_init cfg s1 = Some (Returns CC3XX_ERR_SUCCESS s2)" by simp
      with True l' show ?thesis
        by (simp add: unfold s4_def trng_finish_def)
    next
      case False
      with i have "s1 = s2" by simp
      with False l' show ?thesis
        by (simp add: unfold s4_def)
    qed
  qed
  have s4: "gen_view p s4 = gen_view p s3" "random_buf p s4 = random_buf p s3"
    "used_idx p s4 = used_idx p s3" "sample_cnt1_reads s4 = sample_cnt1_reads s3"
    by (simp_all add: s4_def trng_finish_frame)
  have "pool_stream p s4 (drop k blks) = pool_stream p s3 (drop k blks)"
    by (simp add: pool_stream_def s4)
  also have "\<dots> = drop (?d + len) ?S"
    by (simp add: s3(4) S2 add.commute)
  finally have S4: "pool_stream p s4 (drop k blks) = drop (?d + len) ?S" .
  have "rng_get_random_from cfg p m fn buf dst len quality s
           = Some (Returns (CC3XX_ERR_SUCCESS, take len (drop ?d ?S) @ drop len dst) s4)
         \<and> gen_yields p m fn (gen_view p s4) (drop k blks)
         \<and> length (random_buf p s4) = m \<and> used_idx p s4 \<le> m
         \<and> pool_stream p s4 (drop k blks) = drop (?d + len) ?S
         \<and> count_list (sample_cnt1_reads s) ?rate
             \<le> Suc (count_list (sample_cnt1_reads s4) ?rate)"
    using res s3 c2 S4 by (simp add: s4)
  then show ?thesis by (intro exI)
qed


lemma backing_ready_setup:
  assumes "backing_ready cfg quality k s"
  obtains p m fn blks where
    "\<And>buf dst len t. cc3xx_lowlevel_rng_get_random cfg buf dst len quality t
        = rng_get_random_from cfg p m fn buf dst len quality t"
    and "p = quality_pool quality" and "0 < m" and "m mod 4 = 0" and "m + 3 < 2 ^ 32"
    and "gen_yields p m fn (gen_view p s) blks"
    and "length (random_buf p s) = m" and "used_idx p s \<le> m"
    and "quality = CC3XX_RNG_CRYPTOGRAPHICALLY_SECURE \<longrightarrow>
           2 \<le> count_list (sample_cnt1_reads s) (CC3XX_CONFIG_RNG_SUBSAMPLING_RATE cfg)"
    and "backing_stream cfg quality k s = pool_stream p s blks"
proof (cases quality)
  case CC3XX_RNG_CRYPTOGRAPHICALLY_SECURE
  with assms have r: "0 < EHR_DATA_WORDS cfg" "entropy_buf_size cfg + 3 < 2 ^ 32"
    "length (entropy_buf s) = entropy_buf_size cfg"
    "entropy_buf_used_idx s \<le> entropy_buf_size cfg" "trng_ready cfg k s"
    "2 \<le> count_list (sample_cnt1_reads s) (CC3XX_CONFIG_RNG_SUBSAMPLING_RATE cfg)"
    by (simp_all add: backing_ready_def)
  show ?thesis
  proof (rule that [of ENTROPY_POOL "entropy_buf_size cfg" "trng_get_random cfg"
               "trng_blocks (EHR_DATA_WORDS cfg) k (ehr_data_reads s)"])
    show "gen_yields ENTROPY_POOL (entropy_buf_size cfg) (trng_get_random cfg)
            (gen_view ENTROPY_POOL s) (trng_blocks (EHR_DATA_WORDS cfg) k (ehr_data_reads s))"
      unfolding entropy_buf_size_def using r(5,1) by (rule trng_gen_yields)
  qed (use r CC3XX_RNG_CRYPTOGRAPHICALLY_SECURE in
        \<open>simp_all add: cc3xx_lowlevel_rng_get_random_def backing_stream_def entropy_buf_size_def\<close>)
next
  case CC3XX_RNG_FAST
  with assms have r: "length (lfsr_buf s) = lfsr_buf_size" "lfsr_buf_used_idx s \<le> lfsr_buf_size"
    "lfsr_seed_done s"
    by (simp_all add: backing_ready_def)
  show ?thesis
  proof (rule that [of LFSR_POOL lfsr_buf_size "lfsr_get_random cfg"
               "xorshift_blocks k (lfsr_state s)"])
    show "gen_yields LFSR_POOL lfsr_buf_size (lfsr_get_random cfg)
            (gen_view LFSR_POOL s) (xorshift_blocks k (lfsr_state s))"
      using r(3) by (rule lfsr_gen_yields)
  qed (use r CC3XX_RNG_FAST in
        \<open>simp_all add: cc3xx_lowlevel_rng_get_random_def backing_stream_def lfsr_buf_size_def\<close>)
next
  case CC3XX_RNG_OTHER
  with assms show ?thesis by (simp add: backing_ready_def)
qed

text \<open>
  Claim C2. Two consecutive calls of \<open>cc3xx_lowlevel_rng_get_random\<close> at the same quality,
  with a deterministic backing generator that can deliver the bytes: both calls succeed, and
  with \<open>S\<close> the output stream of the backing generator (the unconsumed rest of the pool, then
  the blocks of the next refills), \<open>d1\<close> and \<open>d2\<close> the bytes dropped by the word-alignment
  adjustment of the first and of the second call (at most three each), the first call writes
  the \<open>n1\<close> bytes of \<open>S\<close> after the first \<open>d1\<close>, and the second call writes the \<open>n2\<close> bytes of
  \<open>S\<close> that follow them after \<open>d2\<close> more. So the two outputs are consecutive pieces of the
  stream: no byte is dispensed twice, and none is skipped apart from the \<open>d1\<close> and \<open>d2\<close>
  alignment bytes. The bytes of the destinations beyond the requested lengths are left as they
  were.
\<close>

theorem C2_consecutive_calls_stream:
  assumes ready: "backing_ready cfg quality k s"
    and fit: "n1 \<le> length dst1" "n2 \<le> length dst2"
    and enough: "n1 + n2 + 6 \<le> length (backing_stream cfg quality k s)"
  shows "\<exists>s1 s2.
      cc3xx_lowlevel_rng_get_random cfg buf1 dst1 n1 quality s
        = Some (Returns (CC3XX_ERR_SUCCESS,
            take n1 (drop (align_discard buf1 n1 (used_idx (quality_pool quality) s))
                       (backing_stream cfg quality k s))
              @ drop n1 dst1) s1)
    \<and> cc3xx_lowlevel_rng_get_random cfg buf2 dst2 n2 quality s1
        = Some (Returns (CC3XX_ERR_SUCCESS,
            take n2 (drop (align_discard buf1 n1 (used_idx (quality_pool quality) s) + n1
                           + align_discard buf2 n2 (used_idx (quality_pool quality) s1))
                       (backing_stream cfg quality k s))
              @ drop n2 dst2) s2)
    \<and> align_discard buf1 n1 (used_idx (quality_pool quality) s) \<le> 3
    \<and> align_discard buf2 n2 (used_idx (quality_pool quality) s1) \<le> 3
    \<and> align_discard buf1 n1 (used_idx (quality_pool quality) s) + n1
        + align_discard buf2 n2 (used_idx (quality_pool quality) s1) + n2
        \<le> length (backing_stream cfg quality k s)"
proof (rule backing_ready_setup [OF ready])
  fix p m fn blks
  assume get: "\<And>buf dst len t. cc3xx_lowlevel_rng_get_random cfg buf dst len quality t
        = rng_get_random_from cfg p m fn buf dst len quality t"
    and p: "p = quality_pool quality" and m: "0 < m" "m mod 4 = 0" "m + 3 < 2 ^ 32"
    and gen: "gen_yields p m fn (gen_view p s) blks"
    and wf: "length (random_buf p s) = m" "used_idx p s \<le> m"
    and cnt: "quality = CC3XX_RNG_CRYPTOGRAPHICALLY_SECURE \<longrightarrow>
           2 \<le> count_list (sample_cnt1_reads s) (CC3XX_CONFIG_RNG_SUBSAMPLING_RATE cfg)"
    and S: "backing_stream cfg quality k s = pool_stream p s blks"
  let ?rate = "CC3XX_CONFIG_RNG_SUBSAMPLING_RATE cfg"
  let ?S = "pool_stream p s blks"
  let ?d1 = "align_discard buf1 n1 (used_idx p s)"
  note d1 = align_discard_bounds [OF wf(2) m(2,3), where buf = buf1 and len = n1]
  have init1: "quality = CC3XX_RNG_CRYPTOGRAPHICALLY_SECURE \<longrightarrow> ?rate \<in> set (sample_cnt1_reads s)"
  proof
    assume "quality = CC3XX_RNG_CRYPTOGRAPHICALLY_SECURE"
    with cnt have "count_list (sample_cnt1_reads s) ?rate \<noteq> 0" by simp
    then show "?rate \<in> set (sample_cnt1_reads s)" by (simp add: count_list_0_iff)
  qed
  have en1: "?d1 + n1 \<le> length ?S"
    using enough d1(1) by (simp add: S)
  from rng_get_random_from_stream [OF m gen wf init1 en1 fit(1)]
  obtain s1 k1 where
    c1: "rng_get_random_from cfg p m fn buf1 dst1 n1 quality s
           = Some (Returns (CC3XX_ERR_SUCCESS, take n1 (drop ?d1 ?S) @ drop n1 dst1) s1)"
    and gen1: "gen_yields p m fn (gen_view p s1) (drop k1 blks)"
    and wf1: "length (random_buf p s1) = m" "used_idx p s1 \<le> m"
    and S1: "pool_stream p s1 (drop k1 blks) = drop (?d1 + n1) ?S"
    and cnt1: "count_list (sample_cnt1_reads s) ?rate \<le> Suc (count_list (sample_cnt1_reads s1) ?rate)"
    by (elim exE conjE)
  let ?d2 = "align_discard buf2 n2 (used_idx p s1)"
  note d2 = align_discard_bounds [OF wf1(2) m(2,3), where buf = buf2 and len = n2]
  have init2: "quality = CC3XX_RNG_CRYPTOGRAPHICALLY_SECURE \<longrightarrow> ?rate \<in> set (sample_cnt1_reads s1)"
  proof
    assume "quality = CC3XX_RNG_CRYPTOGRAPHICALLY_SECURE"
    with cnt cnt1 have "count_list (sample_cnt1_reads s1) ?rate \<noteq> 0" by simp
    then show "?rate \<in> set (sample_cnt1_reads s1)" by (simp add: count_list_0_iff)
  qed
  have en2: "?d2 + n2 \<le> length (pool_stream p s1 (drop k1 blks))"
    using enough d1(1) d2(1) by (simp add: S S1)
  from rng_get_random_from_stream [OF m gen1 wf1 init2 en2 fit(2)]
  obtain s2 k2 where
    c2: "rng_get_random_from cfg p m fn buf2 dst2 n2 quality s1
           = Some (Returns (CC3XX_ERR_SUCCESS,
                take n2 (drop ?d2 (pool_stream p s1 (drop k1 blks))) @ drop n2 dst2) s2)"
    by (elim exE conjE)
  have "drop ?d2 (pool_stream p s1 (drop k1 blks)) = drop (?d1 + n1 + ?d2) ?S"
    by (simp add: S1 add.commute)
  with c2 have c2': "rng_get_random_from cfg p m fn buf2 dst2 n2 quality s1
           = Some (Returns (CC3XX_ERR_SUCCESS,
                take n2 (drop (?d1 + n1 + ?d2) ?S) @ drop n2 dst2) s2)"
    by simp
  have tot: "?d1 + n1 + ?d2 + n2 \<le> length ?S"
    using en2 en1 by (simp add: S1)
  have "cc3xx_lowlevel_rng_get_random cfg buf1 dst1 n1 quality s
        = Some (Returns (CC3XX_ERR_SUCCESS, take n1 (drop ?d1 ?S) @ drop n1 dst1) s1)
    \<and> cc3xx_lowlevel_rng_get_random cfg buf2 dst2 n2 quality s1
        = Some (Returns (CC3XX_ERR_SUCCESS,
            take n2 (drop (?d1 + n1 + ?d2) ?S) @ drop n2 dst2) s2)
    \<and> ?d1 \<le> 3 \<and> ?d2 \<le> 3 \<and> ?d1 + n1 + ?d2 + n2 \<le> length ?S"
    using c1 c2' d1(1) d2(1) tot by (simp add: get)
  then show ?thesis unfolding S p by (intro exI)
qed

theorem C2_consecutive_calls_stream_witness:
  "\<exists>s1 s2.
      cc3xx_lowlevel_rng_get_random (example_config 16 True False) 1 [0, 0, 0] 3
          CC3XX_RNG_CRYPTOGRAPHICALLY_SECURE
          (initial_state (example_config 16 True False) [1, 1, 1, 1, 1, 1] [0x1337, 0x1337]
             [0x04030201, 0x08070605, 0x0C0B0A09, 0x100F0E0D, 0x14131211, 0x18171615])
        = Some (Returns (CC3XX_ERR_SUCCESS, [1, 2, 3]) s1)
    \<and> cc3xx_lowlevel_rng_get_random (example_config 16 True False) 0 [0, 0, 0, 0, 0, 0, 0, 0] 8
          CC3XX_RNG_CRYPTOGRAPHICALLY_SECURE s1
        = Some (Returns (CC3XX_ERR_SUCCESS, [5, 6, 7, 8, 9, 10, 11, 12]) s2)
    \<and> align_discard 0 8 (used_idx ENTROPY_POOL s1) = 1
    \<and> take 12 (backing_stream (example_config 16 True False) CC3XX_RNG_CRYPTOGRAPHICALLY_SECURE 3
          (initial_state (example_config 16 True False) [1, 1, 1, 1, 1, 1] [0x1337, 0x1337]
             [0x04030201, 0x08070605, 0x0C0B0A09, 0x100F0E0D, 0x14131211, 0x18171615]))
        = [1, 2, 3, 4, 5, 6, 7, 8, 9, 10, 11, 12]"
proof -
  define cfg where "cfg = example_config 16 True False"
  define s where "s = initial_state cfg [1, 1, 1, 1, 1, 1] [0x1337, 0x1337]
             [0x04030201, 0x08070605, 0x0C0B0A09, 0x100F0E0D, 0x14131211, 0x18171615]"
  have ready: "backing_ready cfg CC3XX_RNG_CRYPTOGRAPHICALLY_SECURE 3 s"
    unfolding cfg_def s_def
    by (simp add: backing_ready_def trng_ready_def example_config_def initial_state_def
          entropy_buf_size_def)
  have enough: "3 + 8 + 6 \<le> length (backing_stream cfg CC3XX_RNG_CRYPTOGRAPHICALLY_SECURE 3 s)"
    unfolding cfg_def s_def by code_simp
  have f1: "3 \<le> length [0 :: u8, 0, 0]" and f2: "8 \<le> length [0 :: u8, 0, 0, 0, 0, 0, 0, 0]"
    by simp_all
  from C2_consecutive_calls_stream [OF ready f1 f2 enough, where ?buf1.0 = 1 and ?buf2.0 = 0]
  obtain s1 s2 X Y where
    c1: "cc3xx_lowlevel_rng_get_random cfg 1 [0, 0, 0] 3 CC3XX_RNG_CRYPTOGRAPHICALLY_SECURE s
           = Some (Returns (CC3XX_ERR_SUCCESS, X) s1)"
    and c2: "cc3xx_lowlevel_rng_get_random cfg 0 [0, 0, 0, 0, 0, 0, 0, 0] 8
               CC3XX_RNG_CRYPTOGRAPHICALLY_SECURE s1
           = Some (Returns (CC3XX_ERR_SUCCESS, Y) s2)"
    by (elim exE conjE)
  have ev: "case cc3xx_lowlevel_rng_get_random cfg 1 [0, 0, 0] 3 CC3XX_RNG_CRYPTOGRAPHICALLY_SECURE s of
      Some (Returns (e, out) t) \<Rightarrow> out = [1, 2, 3]
        \<and> align_discard 0 8 (used_idx ENTROPY_POOL t) = 1
        \<and> (case cc3xx_lowlevel_rng_get_random cfg 0 [0, 0, 0, 0, 0, 0, 0, 0] 8
                   CC3XX_RNG_CRYPTOGRAPHICALLY_SECURE t of
             Some (Returns (e2, out2) t2) \<Rightarrow> out2 = [5, 6, 7, 8, 9, 10, 11, 12]
           | _ \<Rightarrow> False)
    | _ \<Rightarrow> False"
    unfolding cfg_def s_def by code_simp
  have st: "take 12 (backing_stream cfg CC3XX_RNG_CRYPTOGRAPHICALLY_SECURE 3 s)
        = [1, 2, 3, 4, 5, 6, 7, 8, 9, 10, 11, 12]"
    unfolding cfg_def s_def by code_simp
  from ev c1 c2 have "X = [1, 2, 3] \<and> align_discard 0 8 (used_idx ENTROPY_POOL s1) = 1
      \<and> Y = [5, 6, 7, 8, 9, 10, 11, 12]"
    by simp
  with c1 c2 st have "cc3xx_lowlevel_rng_get_random cfg 1 [0, 0, 0] 3 CC3XX_RNG_CRYPTOGRAPHICALLY_SECURE s
           = Some (Returns (CC3XX_ERR_SUCCESS, [1, 2, 3]) s1)
    \<and> cc3xx_lowlevel_rng_get_random cfg 0 [0, 0, 0, 0, 0, 0, 0, 0] 8
               CC3XX_RNG_CRYPTOGRAPHICALLY_SECURE s1
           = Some (Returns (CC3XX_ERR_SUCCESS, [5, 6, 7, 8, 9, 10, 11, 12]) s2)
    \<and> align_discard 0 8 (used_idx ENTROPY_POOL s1) = 1
    \<and> take 12 (backing_stream cfg CC3XX_RNG_CRYPTOGRAPHICALLY_SECURE 3 s)
        = [1, 2, 3, 4, 5, 6, 7, 8, 9, 10, 11, 12]"
    by simp
  then show ?thesis unfolding cfg_def s_def by (intro exI)
qed


end
